theory Spec2Isabelle
  imports Main "HOL-Library.AList" "HOL-Library.Sublist"
begin

section \<open>Python values and exceptions\<close>

text \<open>
  The recipe is whatever \<^verbatim>\<open>yaml.load\<close> returns: a Python value. Mappings keep their
  insertion order (\<^verbatim>\<open>dict\<close> and \<^verbatim>\<open>OrderedDict\<close> alike), so a mapping is an association
  list. YAML scalars that are not listed (floats, timestamps) behave like \<open>PInt\<close> under
  every operation used by \<^verbatim>\<open>record_test\<close>.
\<close>

datatype pyval =
    PNone
  | PBool bool
  | PInt int
  | PStr string
  | PList "pyval list"
  | PDict "(pyval \<times> pyval) list"

datatype exn =
    OSError
  | KeyError string
  | TypeError
  | IndexError
  | YAMLError
  | ShutilError

text \<open>\<^verbatim>\<open>x[k]\<close> for a string key \<open>k\<close>.\<close>

fun getitem :: "pyval \<Rightarrow> string \<Rightarrow> exn + pyval" where
  "getitem (PDict kvs) k =
     (case map_of kvs (PStr k) of None \<Rightarrow> Inl (KeyError k) | Some v \<Rightarrow> Inr v)"
| "getitem _ k = Inl TypeError"

text \<open>
  \<^verbatim>\<open>k in x\<close> for a string \<open>k\<close>: key membership in a mapping, element membership in a
  list, substring test in a string, \<^verbatim>\<open>TypeError\<close> on anything that is not iterable.
\<close>

fun contains :: "pyval \<Rightarrow> string \<Rightarrow> exn + bool" where
  "contains (PDict kvs) k = Inr (PStr k \<in> fst ` set kvs)"
| "contains (PList xs) k = Inr (PStr k \<in> set xs)"
| "contains (PStr s) k = Inr (sublist k s)"
| "contains _ k = Inl TypeError"

text \<open>
  \<^verbatim>\<open>x[k] = v\<close> for a string key \<open>k\<close>: an existing key keeps its position, a new key
  goes to the end.
\<close>

fun setitem :: "pyval \<Rightarrow> string \<Rightarrow> pyval \<Rightarrow> exn + pyval" where
  "setitem (PDict kvs) k v = Inr (PDict (AList.update (PStr k) v kvs))"
| "setitem _ k v = Inl TypeError"

text \<open>The same assignment on a mapping that is known to be one (a fresh \<^verbatim>\<open>OrderedDict\<close>).\<close>

definition set_key :: "string \<Rightarrow> pyval \<Rightarrow> (pyval \<times> pyval) list \<Rightarrow> (pyval \<times> pyval) list" where
  "set_key k v kvs = AList.update (PStr k) v kvs"

definition has_key :: "(pyval \<times> pyval) list \<Rightarrow> string \<Rightarrow> bool" where
  "has_key kvs k = (PStr k \<in> fst ` set kvs)"


section \<open>Paths (\<^verbatim>\<open>posixpath\<close>)\<close>

definition sep :: char where
  "sep = CHR ''/''"

text \<open>\<^verbatim>\<open>os.path.join(a, b)\<close>\<close>

definition path_join :: "string \<Rightarrow> string \<Rightarrow> string" where
  "path_join a b =
     (if b \<noteq> [] \<and> hd b = sep then b
      else if a = [] \<or> last a = sep then a @ b
      else a @ [sep] @ b)"

text \<open>
  \<^verbatim>\<open>os.path.split(p)\<close>: the tail is everything after the last separator; the head is
  everything before it, with trailing separators stripped unless it consists of
  separators only.
\<close>

definition path_split :: "string \<Rightarrow> string \<times> string" where
  "path_split p =
     (let tail = rev (takeWhile (\<lambda>c. c \<noteq> sep) (rev p));
          head = rev (dropWhile (\<lambda>c. c \<noteq> sep) (rev p))
      in (if head \<noteq> [] \<and> \<not> list_all (\<lambda>c. c = sep) head
          then rev (dropWhile (\<lambda>c. c = sep) (rev head))
          else head,
          tail))"

text \<open>\<^verbatim>\<open>p.split('/')\<close>\<close>

fun split_sep :: "string \<Rightarrow> string list" where
  "split_sep [] = [[]]"
| "split_sep (c # cs) =
     (if c = sep then [] # split_sep cs
      else (case split_sep cs of [] \<Rightarrow> [[c]] | w # ws \<Rightarrow> (c # w) # ws))"

text \<open>
  The names a path walks through, from the working directory: empty components and
  \<^verbatim>\<open>.\<close> name the directory itself. Every path is taken relative to the working
  directory, which is the root of the modelled tree.
\<close>

definition components :: "string \<Rightarrow> string list" where
  "components p = filter (\<lambda>w. w \<noteq> [] \<and> w \<noteq> ''.'') (split_sep p)"


section \<open>The working directory\<close>

text \<open>
  A directory is the list of its entries, in the order \<^verbatim>\<open>os.listdir\<close> reports them.
\<close>

datatype node = File string | Dir "(string \<times> node) list"

type_synonym dir = "(string \<times> node) list"

fun lookup :: "dir \<Rightarrow> string list \<Rightarrow> node option" where
  "lookup es [] = Some (Dir es)"
| "lookup es (n # ns) =
     (case map_of es n of
        None \<Rightarrow> None
      | Some (File c) \<Rightarrow> (if ns = [] then Some (File c) else None)
      | Some (Dir ds) \<Rightarrow> lookup ds ns)"

text \<open>\<^verbatim>\<open>os.path.exists\<close>, \<^verbatim>\<open>os.path.isfile\<close>, \<^verbatim>\<open>os.path.isdir\<close>\<close>

definition exists :: "dir \<Rightarrow> string \<Rightarrow> bool" where
  "exists fs p = (lookup fs (components p) \<noteq> None)"

definition isfile :: "dir \<Rightarrow> string \<Rightarrow> bool" where
  "isfile fs p = (case lookup fs (components p) of Some (File c) \<Rightarrow> True | _ \<Rightarrow> False)"

definition isdir :: "dir \<Rightarrow> string \<Rightarrow> bool" where
  "isdir fs p = (case lookup fs (components p) of Some (Dir ds) \<Rightarrow> True | _ \<Rightarrow> False)"

text \<open>Reading a regular file (\<^verbatim>\<open>open(p, 'r').read()\<close>).\<close>

definition read_file :: "dir \<Rightarrow> string \<Rightarrow> exn + string" where
  "read_file fs p =
     (case lookup fs (components p) of Some (File c) \<Rightarrow> Inr c | _ \<Rightarrow> Inl OSError)"

text \<open>
  Storing a regular file at a path: the parent must be an existing directory and the
  path itself must not be a directory. An existing file is replaced where it stands.
\<close>

fun put_file :: "dir \<Rightarrow> string list \<Rightarrow> string \<Rightarrow> dir option" where
  "put_file es [] c = None"
| "put_file es [n] c =
     (case map_of es n of
        Some (Dir ds) \<Rightarrow> None
      | _ \<Rightarrow> Some (AList.update n (File c) es))"
| "put_file es (n # ns) c =
     (case map_of es n of
        Some (Dir ds) \<Rightarrow>
          (case put_file ds ns c of
             None \<Rightarrow> None
           | Some ds' \<Rightarrow> Some (AList.update n (Dir ds') es))
      | _ \<Rightarrow> None)"

text \<open>\<^verbatim>\<open>open(p, 'w').write(c)\<close>\<close>

definition write_file :: "dir \<Rightarrow> string \<Rightarrow> string \<Rightarrow> exn + dir" where
  "write_file fs p c =
     (case put_file fs (components p) c of None \<Rightarrow> Inl OSError | Some fs' \<Rightarrow> Inr fs')"

text \<open>Dropping the entry a path names.\<close>

fun unlink :: "dir \<Rightarrow> string list \<Rightarrow> dir" where
  "unlink es [] = es"
| "unlink es [n] = AList.delete n es"
| "unlink es (n # ns) =
     (case map_of es n of
        Some (Dir ds) \<Rightarrow> AList.update n (Dir (unlink ds ns)) es
      | _ \<Rightarrow> es)"

text \<open>
  \<^verbatim>\<open>shutil.move(src, dst)\<close> for a source that is a regular file, the only use made of it:
  a destination that is a directory receives the file under its own name, and it is an
  error if that name is taken there; any other destination is renamed onto, replacing
  a file that is there.
\<close>

definition shutil_move :: "dir \<Rightarrow> string \<Rightarrow> string \<Rightarrow> exn + dir" where
  "shutil_move fs src dst =
     (case lookup fs (components src) of
        Some (File c) \<Rightarrow>
          (let real_dst = (if isdir fs dst then path_join dst (snd (path_split src)) else dst)
           in if isdir fs dst \<and> exists fs real_dst then Inl ShutilError
              else (case put_file (unlink fs (components src)) (components real_dst) c of
                      None \<Rightarrow> Inl OSError
                    | Some fs' \<Rightarrow> Inr fs'))
      | _ \<Rightarrow> Inl OSError)"

text \<open>
  \<^verbatim>\<open>get_files(root)\<close>, on the entries of the directory at \<open>root\<close>: a regular file
  contributes its path, anything else is walked.
\<close>

function get_files :: "string \<Rightarrow> dir \<Rightarrow> string list" where
  "get_files root [] = []"
| "get_files root ((el, File c) # rest) = path_join root el # get_files root rest"
| "get_files root ((el, Dir ds) # rest) = get_files (path_join root el) ds @ get_files root rest"
  by pat_completeness auto
termination
  by (relation "measure (\<lambda>(root, es). size_list (size_prod (\<lambda>_. 0) size) es)") auto


section \<open>The input interceptor (\<^verbatim>\<open>RecorderPipe\<close>)\<close>

text \<open>
  What the thread owns: the lines it has buffered, everything it has written into the
  write end of the pipe, and whether the write end is still there
  (\<^verbatim>\<open>self.wpipe is not None\<close>).
\<close>

record recorder_pipe =
  lines :: "string list"
  channel :: string
  wpipe_open :: bool

definition newline :: char where
  "newline = CHR 0x0A"

text \<open>
  The loop of \<^verbatim>\<open>RecorderPipe.run\<close>, once the process handle is set. The operator's
  input stream is the list of lines \<^verbatim>\<open>input()\<close> will return, after which it raises
  \<^verbatim>\<open>EOFError\<close> and the thread ends. \<open>polls\<close> is the number of further calls of
  \<^verbatim>\<open>process.poll()\<close> that still find the child running: the loop condition polls
  once, \<^verbatim>\<open>check()\<close> polls once more after each line and closes the pipe when the
  child is gone.
\<close>

fun run_loop :: "nat \<Rightarrow> string list \<Rightarrow> recorder_pipe \<Rightarrow> recorder_pipe" where
  "run_loop polls [] rp = rp"
| "run_loop polls (s # rest) rp =
     (if \<not> wpipe_open rp \<or> polls = 0 then rp
      else
        (let rp' = rp\<lparr>channel := channel rp @ s @ [newline], lines := lines rp @ [s]\<rparr>
         in if polls = 1 then rp'\<lparr>wpipe_open := False\<rparr>
            else run_loop (polls - 2) rest rp'))"

definition run :: "nat \<Rightarrow> string list \<Rightarrow> recorder_pipe" where
  "run polls inp = run_loop polls inp \<lparr>lines = [], channel = [], wpipe_open = True\<rparr>"


section \<open>The environment of one recording\<close>

record child_result =
  returncode :: int
  stdout :: string
  stderr :: string
  fs_after :: dir

datatype loader = SafeLoader | DefaultLoader

text \<open>
  Everything \<^verbatim>\<open>record_test\<close> gets from outside the repository:
  \<^item> \<open>popen\<close>: \<^verbatim>\<open>Popen(command, ...)\<close> followed by \<^verbatim>\<open>communicate()\<close>, on the working
    directory as it stands; \<open>None\<close> when the executable cannot be started
    (\<^verbatim>\<open>Popen\<close> raises \<^verbatim>\<open>OSError\<close>);
  \<^item> \<open>operator_input\<close>, \<open>alive_polls\<close>: what the interceptor thread meets;
  \<^item> \<open>set_order\<close>: the order in which a Python \<^verbatim>\<open>set\<close> of paths is iterated;
  \<^item> \<open>yaml_load\<close>, \<open>yaml_dump\<close>: PyYAML; \<open>None\<close> when the text does not parse.
\<close>

record world =
  popen :: "string list \<Rightarrow> dir \<Rightarrow> child_result option"
  operator_input :: "string list"
  alive_polls :: nat
  set_order :: "string list \<Rightarrow> string list"
  yaml_load :: "loader \<Rightarrow> string \<Rightarrow> pyval option"
  yaml_dump :: "pyval \<Rightarrow> string"

datatype retval = Success | Message string

datatype outcome = Returned retval | Raised exn

text \<open>
  What one call leaves behind: how it ended, the working directory, and the document
  handed to \<^verbatim>\<open>yaml.dump\<close> if the call got that far.
\<close>

record result =
  outcome :: outcome
  final_fs :: dir
  dumped :: "pyval option"


section \<open>\<^verbatim>\<open>record_test\<close>\<close>

definition duplicate_message :: "string \<Rightarrow> string" where
  "duplicate_message test_name = test_name @ '' is already a test case! Choose a new name!''"

text \<open>
  Loading or creating the recipe (\<^verbatim>\<open>runner.py\<close> lines 111 to 125, \<^verbatim>\<open>contest-gen.py\<close>
  lines 167 to 181). On success the code holds three mappings: the recipe, its
  \<^verbatim>\<open>test-cases\<close> with an empty entry under the new name, and that entry, which has
  the key \<^verbatim>\<open>executable\<close> when the command's executable is not the recipe's.
\<close>

definition open_recipe ::
  "world \<Rightarrow> loader \<Rightarrow> dir \<Rightarrow> string \<Rightarrow> string \<Rightarrow> string list
     \<Rightarrow> outcome + (pyval \<times> pyval \<times> (pyval \<times> pyval) list)" where
  "open_recipe w ld fs configuration test_name command =
     (if exists fs configuration then
        (case read_file fs configuration of
           Inl e \<Rightarrow> Inl (Raised e)
         | Inr text \<Rightarrow>
        (case yaml_load w ld text of
           None \<Rightarrow> Inl (Raised YAMLError)
         | Some test_matrix \<Rightarrow>
        (case getitem test_matrix ''test-cases'' of
           Inl e \<Rightarrow> Inl (Raised e)
         | Inr cases \<Rightarrow>
        (case contains cases test_name of
           Inl e \<Rightarrow> Inl (Raised e)
         | Inr True \<Rightarrow> Inl (Returned (Message (duplicate_message test_name)))
         | Inr False \<Rightarrow>
        (case setitem cases test_name (PDict []) of
           Inl e \<Rightarrow> Inl (Raised e)
         | Inr cases' \<Rightarrow>
        (case command of
           [] \<Rightarrow> Inl (Raised IndexError)
         | c0 # argv \<Rightarrow>
        (case getitem test_matrix ''executable'' of
           Inl e \<Rightarrow> Inl (Raised e)
         | Inr ex \<Rightarrow>
             Inr (test_matrix, cases',
                  if PStr c0 \<noteq> ex then set_key ''executable'' (PStr c0) [] else []))))))))
      else
        (case command of
           [] \<Rightarrow> Inl (Raised IndexError)
         | c0 # argv \<Rightarrow>
             Inr (PDict [(PStr ''executable'', PStr c0),
                         (PStr ''test-cases'', PDict [(PStr test_name, PDict [])])],
                  PDict [(PStr test_name, PDict [])],
                  [])))"

text \<open>\<^verbatim>\<open>'\n'.join(xs)\<close>\<close>

fun str_join :: "string \<Rightarrow> string list \<Rightarrow> string" where
  "str_join s [] = []"
| "str_join s [x] = x"
| "str_join s (x # xs) = x @ s @ str_join s xs"

text \<open>
  Filling the test case (\<^verbatim>\<open>runner.py\<close> lines 127 to 137): the return code always,
  the other keys when their value is not empty.
\<close>

definition describe_run ::
  "(pyval \<times> pyval) list \<Rightarrow> int \<Rightarrow> string list \<Rightarrow> string list \<Rightarrow> string \<Rightarrow> string
     \<Rightarrow> (pyval \<times> pyval) list" where
  "describe_run test_case rc command recorded out err =
     (let tc1 = set_key ''return-code'' (PInt rc) test_case;
          argv = tl command;
          tc2 = (if argv \<noteq> [] then set_key ''argv'' (PList (map PStr (tl command))) tc1 else tc1);
          tc3 = (if recorded \<noteq> []
                 then set_key ''stdin'' (PStr (str_join [newline] recorded)) tc2 else tc2);
          tc4 = (if out \<noteq> [] then set_key ''stdout'' (PStr out) tc3 else tc3);
          tc5 = (if err \<noteq> [] then set_key ''stderr'' (PStr err) tc4 else tc4)
      in tc5)"

text \<open>
  The same lines of \<^verbatim>\<open>contest-gen.py\<close> (183 to 193), where \<^verbatim>\<open>stdin\<close> is the list
  itself.
\<close>

definition describe_run_standalone ::
  "(pyval \<times> pyval) list \<Rightarrow> int \<Rightarrow> string list \<Rightarrow> string list \<Rightarrow> string \<Rightarrow> string
     \<Rightarrow> (pyval \<times> pyval) list" where
  "describe_run_standalone test_case rc command recorded out err =
     (let tc1 = set_key ''return-code'' (PInt rc) test_case;
          argv = tl command;
          tc2 = (if argv \<noteq> [] then set_key ''argv'' (PList (map PStr (tl command))) tc1 else tc1);
          tc3 = (if recorded \<noteq> []
                 then set_key ''stdin'' (PList (map PStr recorded)) tc2 else tc2);
          tc4 = (if out \<noteq> [] then set_key ''stdout'' (PStr out) tc3 else tc3);
          tc5 = (if err \<noteq> [] then set_key ''stderr'' (PStr err) tc4 else tc4)
      in tc5)"

text \<open>The destination of a new file: same directory, name prefixed.\<close>

definition base_file_of :: "string \<Rightarrow> string" where
  "base_file_of new_file =
     (let (dir_name, file_name) = path_split new_file
      in path_join dir_name (''contest_'' @ file_name))"

definition ofstream :: "string \<Rightarrow> pyval" where
  "ofstream new_file =
     PDict (set_key ''test-file'' (PStr new_file)
             (set_key ''base-file'' (PStr (base_file_of new_file)) []))"

text \<open>
  The loop over the new files (\<^verbatim>\<open>runner.py\<close> lines 141 to 147): each file is moved,
  then its entry is appended. An exception of \<^verbatim>\<open>shutil.move\<close> ends the loop with the
  moves made so far in place.
\<close>

fun relocate :: "dir \<Rightarrow> string list \<Rightarrow> pyval list \<Rightarrow> (exn + pyval list) \<times> dir" where
  "relocate fs [] ofstreams = (Inr ofstreams, fs)"
| "relocate fs (new_file # rest) ofstreams =
     (case shutil_move fs new_file (base_file_of new_file) of
        Inl e \<Rightarrow> (Inl e, fs)
      | Inr fs' \<Rightarrow> relocate fs' rest (ofstreams @ [ofstream new_file]))"

text \<open>
  The recipe as it stands in memory once the test case is complete: the test case is
  the very object stored under the new name in \<^verbatim>\<open>test-cases\<close>, which is the very
  object stored in the recipe.
\<close>

fun document :: "pyval \<Rightarrow> pyval \<Rightarrow> string \<Rightarrow> (pyval \<times> pyval) list \<Rightarrow> pyval" where
  "document (PDict recipe) (PDict cases) test_name test_case =
     PDict (AList.update (PStr ''test-cases'')
              (PDict (AList.update (PStr test_name) (PDict test_case) cases)) recipe)"
| "document test_matrix _ _ _ = test_matrix"

text \<open>\<^verbatim>\<open>set(get_files('.')) - files\<close>, in the order the loop will meet its elements.\<close>

definition new_files_of :: "world \<Rightarrow> dir \<Rightarrow> dir \<Rightarrow> string list" where
  "new_files_of w fs0 fs1 =
     set_order w (remdups (filter (\<lambda>p. p \<notin> set (get_files ''.'' fs0)) (get_files ''.'' fs1)))"

text \<open>
  \<^verbatim>\<open>contestgen/runner.py\<close>, \<^verbatim>\<open>record_test(configuration, test_name, command)\<close>.
  The snapshot before the run is taken on the directory the child starts in. The lines
  read from \<^verbatim>\<open>recorder_pipe.lines\<close> are those of the interceptor thread run to its
  end: the race between the thread and the main flow is outside this model. Each
  \<^verbatim>\<open>return\<close> and each place where an exception leaves the function is a branch, with
  the working directory as it stands there.
\<close>

definition record_test :: "world \<Rightarrow> dir \<Rightarrow> string \<Rightarrow> string \<Rightarrow> string list \<Rightarrow> result" where
  "record_test w fs0 configuration test_name command =
     (case popen w command fs0 of
        None \<Rightarrow> \<lparr>outcome = Raised OSError, final_fs = fs0, dumped = None\<rparr>
      | Some proc \<Rightarrow>
          (let fs1 = fs_after proc;
               new_files = new_files_of w fs0 fs1;
               recorded = lines (run (alive_polls w) (operator_input w))
           in case open_recipe w DefaultLoader fs1 configuration test_name command of
                Inl out \<Rightarrow> \<lparr>outcome = out, final_fs = fs1, dumped = None\<rparr>
              | Inr (test_matrix, cases, test_case) \<Rightarrow>
                  (let tc = describe_run test_case (returncode proc) command recorded
                              (stdout proc) (stderr proc)
                   in case (if new_files \<noteq> [] then relocate fs1 new_files [] else (Inr [], fs1)) of
                        (Inl e, fs2) \<Rightarrow> \<lparr>outcome = Raised e, final_fs = fs2, dumped = None\<rparr>
                      | (Inr ofstreams, fs2) \<Rightarrow>
                          (let tc' = (if new_files \<noteq> []
                                      then set_key ''ofstreams'' (PList ofstreams) tc else tc);
                               doc = document test_matrix cases test_name tc'
                           in case write_file fs2 configuration (yaml_dump w doc) of
                                Inl e \<Rightarrow> \<lparr>outcome = Raised e, final_fs = fs2, dumped = None\<rparr>
                              | Inr fs3 \<Rightarrow>
                                  \<lparr>outcome = Returned Success, final_fs = fs3,
                                   dumped = Some doc\<rparr>))))"

text \<open>
  \<^verbatim>\<open>contest-gen.py\<close>, \<^verbatim>\<open>record_test(command, test_name)\<close>: the recipe is always
  \<^verbatim>\<open>contest_recipe.yaml\<close>, read by \<^verbatim>\<open>ordered_load\<close> with the safe loader.
\<close>

definition record_test_standalone :: "world \<Rightarrow> dir \<Rightarrow> string list \<Rightarrow> string \<Rightarrow> result" where
  "record_test_standalone w fs0 command test_name =
     (case popen w command fs0 of
        None \<Rightarrow> \<lparr>outcome = Raised OSError, final_fs = fs0, dumped = None\<rparr>
      | Some proc \<Rightarrow>
          (let fs1 = fs_after proc;
               new_files = new_files_of w fs0 fs1;
               recorded = lines (run (alive_polls w) (operator_input w))
           in case open_recipe w SafeLoader fs1 ''contest_recipe.yaml'' test_name command of
                Inl out \<Rightarrow> \<lparr>outcome = out, final_fs = fs1, dumped = None\<rparr>
              | Inr (test_recipe, cases, test_case) \<Rightarrow>
                  (let tc = describe_run_standalone test_case (returncode proc) command recorded
                              (stdout proc) (stderr proc)
                   in case (if new_files \<noteq> [] then relocate fs1 new_files [] else (Inr [], fs1)) of
                        (Inl e, fs2) \<Rightarrow> \<lparr>outcome = Raised e, final_fs = fs2, dumped = None\<rparr>
                      | (Inr ofstreams, fs2) \<Rightarrow>
                          (let tc' = (if new_files \<noteq> []
                                      then set_key ''ofstreams'' (PList ofstreams) tc else tc);
                               doc = document test_recipe cases test_name tc'
                           in case write_file fs2 ''contest_recipe.yaml'' (yaml_dump w doc) of
                                Inl e \<Rightarrow> \<lparr>outcome = Raised e, final_fs = fs2, dumped = None\<rparr>
                              | Inr fs3 \<Rightarrow>
                                  \<lparr>outcome = Returned Success, final_fs = fs3,
                                   dumped = Some doc\<rparr>))))"


section \<open>Reading a recorded document\<close>

text \<open>The test case a document holds under a name.\<close>

definition recorded_case :: "pyval \<Rightarrow> string \<Rightarrow> (pyval \<times> pyval) list option" where
  "recorded_case doc test_name =
     (case getitem doc ''test-cases'' of
        Inl e \<Rightarrow> None
      | Inr cases \<Rightarrow>
          (case getitem cases test_name of Inr (PDict tc) \<Rightarrow> Some tc | _ \<Rightarrow> None))"






section \<open>Well-formed directories\<close>

text \<open>
  A name of a directory entry is not empty, has no separator and is not \<^verbatim>\<open>.\<close>; the
  names of one directory are distinct.
\<close>

definition wf_name :: "string \<Rightarrow> bool" where
  "wf_name n = (n \<noteq> [] \<and> sep \<notin> set n \<and> n \<noteq> ''.'')"

function wf_dir :: "dir \<Rightarrow> bool" where
  "wf_dir [] = True"
| "wf_dir ((n, File c) # rest) = (wf_name n \<and> n \<notin> fst ` set rest \<and> wf_dir rest)"
| "wf_dir ((n, Dir ds) # rest) = (wf_name n \<and> n \<notin> fst ` set rest \<and> wf_dir ds \<and> wf_dir rest)"
  by pat_completeness auto
termination
  by (relation "measure (\<lambda>es. size_list (size_prod (\<lambda>_. 0) size) es)") auto

text \<open>The path \<^verbatim>\<open>get_files('.')\<close> gives to the file reached through the names \<open>ns\<close>.\<close>

definition path_of :: "string list \<Rightarrow> string" where
  "path_of ns = ''.'' @ concat (map (\<lambda>n. sep # n) ns)"

text \<open>What stands at a path: nothing, a regular file with its content, or a directory.\<close>

datatype stat = Absent | Regular string | Directory

definition stat_at :: "dir \<Rightarrow> string list \<Rightarrow> stat" where
  "stat_at fs ns =
     (case lookup fs ns of
        None \<Rightarrow> Absent
      | Some (File c) \<Rightarrow> Regular c
      | Some (Dir ds) \<Rightarrow> Directory)"

text \<open>
  Iterating a set visits each of its elements once: the order \<open>set_order\<close> gives to a
  duplicate-free list has the same elements and no duplicates.
\<close>

definition iterates_sets :: "world \<Rightarrow> bool" where
  "iterates_sets w =
     (\<forall>xs. distinct xs \<longrightarrow> distinct (set_order w xs) \<and> set (set_order w xs) = set xs)"


section \<open>Example recordings\<close>

text \<open>
  A recipe with one test case, the result of recording \<^verbatim>\<open>echo hello\<close> under the name
  \<^verbatim>\<open>hello\<close>, and a loader that knows the text of that recipe, of the empty mapping,
  of a mapping with an empty \<^verbatim>\<open>test-cases\<close> only, and the empty text (which is
  \<^verbatim>\<open>None\<close>).
\<close>

definition recipe_text :: string where
  "recipe_text = ''executable: echo''"

definition ex_recipe :: pyval where
  "ex_recipe =
     PDict [(PStr ''executable'', PStr ''echo''),
            (PStr ''test-cases'',
             PDict [(PStr ''hello'',
                     PDict [(PStr ''return-code'', PInt 0),
                            (PStr ''argv'', PList [PStr ''hello'']),
                            (PStr ''stdout'', PStr (''hello'' @ [newline]))])])]"

definition ex_load :: "loader \<Rightarrow> string \<Rightarrow> pyval option" where
  "ex_load ld text =
     (if text = recipe_text then Some ex_recipe
      else if text = ''{}'' then Some (PDict [])
      else if text = ''test-cases: {}'' then Some (PDict [(PStr ''test-cases'', PDict [])])
      else if text = [] then Some PNone
      else None)"

text \<open>
  Four programs: \<^verbatim>\<open>echo hello\<close> prints and exits with 0; \<^verbatim>\<open>writer\<close> writes
  \<^verbatim>\<open>out.txt\<close> and exits with 2; \<^verbatim>\<open>cat\<close> echoes the two lines it is given in the
  second world below; \<^verbatim>\<open>twins\<close> writes the files \<^verbatim>\<open>a\<close> and \<^verbatim>\<open>contest_a\<close>. Nothing
  else can be started.
\<close>

definition ex_child :: "string list \<Rightarrow> dir \<Rightarrow> child_result option" where
  "ex_child command fs =
     (if command = [''echo'', ''hello'']
      then Some \<lparr>returncode = 0, stdout = ''hello'' @ [newline], stderr = [], fs_after = fs\<rparr>
      else if command = [''writer'']
      then Some \<lparr>returncode = 2, stdout = [], stderr = [],
                 fs_after = AList.update ''out.txt'' (File ''data'') fs\<rparr>
      else if command = [''cat'']
      then Some \<lparr>returncode = 0, stdout = ''ping'' @ [newline] @ ''pong'' @ [newline],
                 stderr = [], fs_after = fs\<rparr>
      else if command = [''twins'']
      then Some \<lparr>returncode = 0, stdout = [], stderr = [],
                 fs_after = AList.update ''contest_a'' (File ''2'')
                              (AList.update ''a'' (File ''1'') fs)\<rparr>
      else None)"

definition ex_world :: world where
  "ex_world =
     \<lparr>popen = ex_child, operator_input = [], alive_polls = 0, set_order = (\<lambda>xs. xs),
      yaml_load = ex_load, yaml_dump = (\<lambda>doc. ''dumped'')\<rparr>"

definition ex_world_ping :: world where
  "ex_world_ping = ex_world\<lparr>operator_input := [''ping'', ''pong''], alive_polls := 4\<rparr>"

definition ex_fs :: dir where
  "ex_fs = [(''contest_recipe.yaml'', File recipe_text)]"




text \<open>A working directory where an earlier recording has left a base file.\<close>

definition ex_fs_stale :: dir where
  "ex_fs_stale = [(''contest_out.txt'', File ''old'')]"

text \<open>The definitions that evaluate an example.\<close>

lemmas ex_defs =
  ex_world_ping_def ex_world_def ex_child_def ex_fs_def ex_load_def ex_recipe_def recipe_text_def

lemmas path_defs =
  components_def sep_def path_join_def path_split_def base_file_of_def

lemmas fs_defs =
  exists_def isdir_def isfile_def read_file_def write_file_def shutil_move_def


section \<open>Duplicate names\<close>






section \<open>The interceptor\<close>

lemma run_loop_lines:
  "wpipe_open rp \<Longrightarrow>
     lines (run_loop polls inp rp) = lines rp @ take ((polls + 1) div 2) inp"
proof (induction polls inp rp rule: run_loop.induct)
  case (1 polls rp)
  then show ?case by simp
next
  case (2 polls s rest rp)
  show ?case
  proof (cases "polls = 0 \<or> polls = 1")
    case True
    with 2 show ?thesis by (auto simp: Let_def)
  next
    case False
    then obtain k where k: "polls = Suc (Suc k)"
      by (metis One_nat_def not0_implies_Suc)
    have "(polls + 1) div 2 = Suc ((k + 1) div 2)"
      using k by simp
    with 2 k show ?thesis by (simp add: Let_def)
  qed
qed

lemma run_loop_channel:
  "channel rp = concat (map (\<lambda>s. s @ [newline]) (lines rp)) \<Longrightarrow>
     channel (run_loop polls inp rp) =
       concat (map (\<lambda>s. s @ [newline]) (lines (run_loop polls inp rp)))"
  by (induction polls inp rp rule: run_loop.induct) (auto simp: Let_def)

text \<open>
  C3, as the code has it. The thread forwards the operator's lines in order and
  unaltered, each followed by one line terminator, and buffers exactly what it has
  forwarded; but it forwards only a prefix of the operator's input: it stops at the
  first poll that finds the child gone. With \<open>polls\<close> further polls finding the child
  running, the first \<open>(polls + 1) div 2\<close> lines are forwarded, which is all of them
  when the child outlives the input.
\<close>

theorem interceptor_forwards_prefix:
  "lines (run polls inp) = take ((polls + 1) div 2) inp \<and>
   channel (run polls inp) = concat (map (\<lambda>s. s @ [newline]) (lines (run polls inp)))"
  using run_loop_lines [of "\<lparr>lines = [], channel = [], wpipe_open = True\<rparr>" polls inp]
        run_loop_channel [of "\<lparr>lines = [], channel = [], wpipe_open = True\<rparr>" polls inp]
  by (simp add: run_def)

theorem interceptor_forwards_prefix_witness:
  "lines (run 4 [''ping'', ''pong'']) = [''ping'', ''pong''] \<and>
   channel (run 4 [''ping'', ''pong'']) = ''ping'' @ [newline] @ ''pong'' @ [newline]"
  using interceptor_forwards_prefix [of 4 "[''ping'', ''pong'']"]
  by simp

text \<open>
  The claim as stated fails: the operator supplies two lines, the child is gone when
  \<^verbatim>\<open>check()\<close> polls after the first, and the second line is never forwarded.
\<close>

theorem interceptor_stops_counterexample:
  "lines (run 1 [''a'', ''b'']) = [''a''] \<and>
   channel (run 1 [''a'', ''b'']) = ''a'' @ [newline] \<and>
   lines (run 1 [''a'', ''b'']) \<noteq> [''a'', ''b'']"
  by (simp add: run_def)


section \<open>How a call can end\<close>

lemma open_recipe_returned:
  "open_recipe w ld fs configuration test_name command = Inl (Returned rv) \<Longrightarrow>
     rv = Message (duplicate_message test_name)"
  by (auto simp: open_recipe_def split: if_splits sum.splits option.splits bool.splits list.splits)

lemma record_test_message:
  assumes "outcome (record_test w fs0 configuration test_name command) = Returned (Message m)"
  shows "m = duplicate_message test_name \<and>
      dumped (record_test w fs0 configuration test_name command) = None \<and>
      (\<exists>proc. popen w command fs0 = Some proc \<and>
         final_fs (record_test w fs0 configuration test_name command) = fs_after proc)"
proof (cases "popen w command fs0")
  case None
  with assms show ?thesis by (simp add: record_test_def)
next
  case (Some proc)
  show ?thesis
  proof (cases "open_recipe w DefaultLoader (fs_after proc) configuration test_name command")
    case (Inl out)
    with Some assms have "out = Returned (Message m)"
      by (simp add: record_test_def Let_def)
    with Inl Some
      open_recipe_returned [of w DefaultLoader "fs_after proc" configuration test_name command
        "Message m"]
    show ?thesis by (simp add: record_test_def Let_def)
  next
    case (Inr x)
    obtain tm cs tc where x: "x = (tm, cs, tc)" by (cases x) auto
    from Inr Some assms x show ?thesis
      by (auto simp: record_test_def Let_def split: if_splits prod.splits sum.splits)
  qed
qed

lemma record_test_standalone_message:
  assumes "outcome (record_test_standalone w fs0 command test_name) = Returned (Message m)"
  shows "m = duplicate_message test_name \<and>
      dumped (record_test_standalone w fs0 command test_name) = None \<and>
      (\<exists>proc. popen w command fs0 = Some proc \<and>
         final_fs (record_test_standalone w fs0 command test_name) = fs_after proc)"
proof (cases "popen w command fs0")
  case None
  with assms show ?thesis by (simp add: record_test_standalone_def)
next
  case (Some proc)
  show ?thesis
  proof (cases "open_recipe w SafeLoader (fs_after proc) ''contest_recipe.yaml'' test_name command")
    case (Inl out)
    with Some assms have "out = Returned (Message m)"
      by (simp add: record_test_standalone_def Let_def)
    with Inl Some
      open_recipe_returned [of w SafeLoader "fs_after proc" "''contest_recipe.yaml''" test_name
        command "Message m"]
    show ?thesis by (simp add: record_test_standalone_def Let_def)
  next
    case (Inr x)
    obtain tm cs tc where x: "x = (tm, cs, tc)" by (cases x) auto
    from Inr Some assms x show ?thesis
      by (auto simp: record_test_standalone_def Let_def split: if_splits prod.splits sum.splits)
  qed
qed

text \<open>
  C5, as the code has it. The duplicate check comes before the loop that moves the new
  files, and the function returns at once: whenever the duplicate-name message is
  returned the child has run, but no file has been moved and nothing has been written.
  The working directory is exactly as the child left it.
\<close>

theorem duplicate_error_precedes_moves:
  "(outcome (record_test w fs0 configuration test_name command) = Returned (Message m) \<longrightarrow>
      m = duplicate_message test_name \<and>
      dumped (record_test w fs0 configuration test_name command) = None \<and>
      (\<exists>proc. popen w command fs0 = Some proc \<and>
         final_fs (record_test w fs0 configuration test_name command) = fs_after proc)) \<and>
   (outcome (record_test_standalone w fs0 command test_name) = Returned (Message m) \<longrightarrow>
      m = duplicate_message test_name \<and>
      dumped (record_test_standalone w fs0 command test_name) = None \<and>
      (\<exists>proc. popen w command fs0 = Some proc \<and>
         final_fs (record_test_standalone w fs0 command test_name) = fs_after proc))"
  using record_test_message [of w fs0 configuration test_name command m]
        record_test_standalone_message [of w fs0 command test_name m]
  by blast

lemma ex_duplicate_writer:
  "record_test ex_world ex_fs ''contest_recipe.yaml'' ''hello'' [''writer''] =
     \<lparr>outcome = Returned (Message (duplicate_message ''hello'')),
      final_fs = AList.update ''out.txt'' (File ''data'') ex_fs, dumped = None\<rparr>"
  by (simp add: record_test_def open_recipe_def Let_def ex_defs fs_defs path_defs)

lemma ex_duplicate_writer_standalone:
  "record_test_standalone ex_world ex_fs [''writer''] ''hello'' =
     \<lparr>outcome = Returned (Message (duplicate_message ''hello'')),
      final_fs = AList.update ''out.txt'' (File ''data'') ex_fs, dumped = None\<rparr>"
  by (simp add: record_test_standalone_def open_recipe_def Let_def ex_defs fs_defs path_defs)

theorem duplicate_error_precedes_moves_witness:
  "final_fs (record_test ex_world ex_fs ''contest_recipe.yaml'' ''hello'' [''writer'']) =
     [(''contest_recipe.yaml'', File recipe_text), (''out.txt'', File ''data'')] \<and>
   final_fs (record_test_standalone ex_world ex_fs [''writer''] ''hello'') =
     [(''contest_recipe.yaml'', File recipe_text), (''out.txt'', File ''data'')]"
  using duplicate_error_precedes_moves
          [of ex_world ex_fs "''contest_recipe.yaml''" "''hello''" "[''writer'']"
              "duplicate_message ''hello''"]
        ex_duplicate_writer ex_duplicate_writer_standalone
  by (simp add: ex_world_def ex_child_def ex_fs_def)

text \<open>
  The claim as stated fails: \<^verbatim>\<open>writer\<close> recorded under the taken name \<^verbatim>\<open>hello\<close>
  ends with the duplicate-name message while the file the child wrote is still where
  the child wrote it and nothing stands at its base-file path.
\<close>

theorem duplicate_error_after_moves_counterexample:
  "outcome (record_test ex_world ex_fs ''contest_recipe.yaml'' ''hello'' [''writer'']) =
     Returned (Message (duplicate_message ''hello'')) \<and>
   new_files_of ex_world ex_fs (AList.update ''out.txt'' (File ''data'') ex_fs) = [''./out.txt''] \<and>
   base_file_of ''./out.txt'' = ''./contest_out.txt'' \<and>
   isfile (final_fs (record_test ex_world ex_fs ''contest_recipe.yaml'' ''hello'' [''writer'']))
     ''./out.txt'' \<and>
   \<not> exists (final_fs (record_test ex_world ex_fs ''contest_recipe.yaml'' ''hello'' [''writer'']))
     ''./contest_out.txt''"
  unfolding ex_duplicate_writer
  by (simp add: new_files_of_def ex_defs fs_defs path_defs)


section \<open>Malformed recipes\<close>


lemma getitem_value_is_mapping: "getitem doc k = Inr v \<Longrightarrow> \<exists>kvs. doc = PDict kvs"
  by (cases doc) auto








section \<open>The recorded test case\<close>

lemma has_key_set_key: "has_key (set_key k v tc) k' = (k' = k \<or> has_key tc k')"
  by (auto simp: has_key_def set_key_def dom_update)

lemma map_of_set_key:
  "map_of (set_key k v tc) (PStr k') = (if k' = k then Some v else map_of tc (PStr k'))"
  by (simp add: set_key_def update_conv')

lemma has_key_Nil: "\<not> has_key [] k"
  by (simp add: has_key_def)

lemma open_recipe_Inr:
  assumes "open_recipe w ld fs configuration test_name command = Inr (tm, cs, tc0)"
  shows "\<exists>recipe cases. tm = PDict recipe \<and> cs = PDict cases"
    and "has_key tc0 k \<Longrightarrow> k = ''executable''"
    and "command \<noteq> []"
proof -
  show "\<exists>recipe cases. tm = PDict recipe \<and> cs = PDict cases"
    using assms
    by (cases "exists fs configuration")
       (auto simp: open_recipe_def split: sum.splits option.splits bool.splits list.splits
             dest!: getitem_value_is_mapping elim!: setitem.elims)
  show "has_key tc0 k \<Longrightarrow> k = ''executable''"
    using assms
    by (cases "exists fs configuration")
       (auto simp: open_recipe_def has_key_set_key has_key_Nil
             split: sum.splits option.splits bool.splits list.splits if_splits)
  show "command \<noteq> []"
    using assms
    by (cases "exists fs configuration")
       (auto simp: open_recipe_def split: sum.splits option.splits bool.splits list.splits)
qed

lemma recorded_case_document:
  "recorded_case (document (PDict recipe) (PDict cases) test_name tc) test_name = Some tc"
  by (simp add: recorded_case_def update_conv')

lemma has_key_describe_run:
  "has_key (describe_run tc0 rc command recorded out err) k =
     (has_key tc0 k \<or> k = ''return-code'' \<or> (k = ''argv'' \<and> tl command \<noteq> []) \<or>
      (k = ''stdin'' \<and> recorded \<noteq> []) \<or> (k = ''stdout'' \<and> out \<noteq> []) \<or>
      (k = ''stderr'' \<and> err \<noteq> []))"
  by (auto simp: describe_run_def Let_def has_key_set_key)


lemma record_test_dumped:
  assumes "popen w command fs0 = Some proc"
      and "dumped (record_test w fs0 configuration test_name command) = Some doc"
  obtains recipe cases tc0 ofs fs2 where
    "open_recipe w DefaultLoader (fs_after proc) configuration test_name command =
       Inr (PDict recipe, PDict cases, tc0)"
    "relocate (fs_after proc) (new_files_of w fs0 (fs_after proc)) [] = (Inr ofs, fs2)"
    "doc = document (PDict recipe) (PDict cases) test_name
             ((if new_files_of w fs0 (fs_after proc) \<noteq> [] then set_key ''ofstreams'' (PList ofs)
               else (\<lambda>tc. tc))
                (describe_run tc0 (returncode proc) command
                   (lines (run (alive_polls w) (operator_input w))) (stdout proc) (stderr proc)))"
    "write_file fs2 configuration (yaml_dump w doc) =
       Inr (final_fs (record_test w fs0 configuration test_name command))"
    "outcome (record_test w fs0 configuration test_name command) = Returned Success"
proof (cases "open_recipe w DefaultLoader (fs_after proc) configuration test_name command")
  case (Inl out)
  with assms show ?thesis by (simp add: record_test_def Let_def)
next
  case (Inr x)
  obtain tm cs tc0 where x: "x = (tm, cs, tc0)" by (cases x) auto
  obtain recipe cases where tm: "tm = PDict recipe" "cs = PDict cases"
    using open_recipe_Inr(1) [of w DefaultLoader "fs_after proc" configuration test_name command
        tm cs tc0] Inr x by auto
  obtain res fs2 where rel:
    "relocate (fs_after proc) (new_files_of w fs0 (fs_after proc)) [] = (res, fs2)"
    by (cases "relocate (fs_after proc) (new_files_of w fs0 (fs_after proc)) []") auto
  show ?thesis
  proof (cases res)
    case (Inl e)
    with assms Inr x rel show ?thesis
      by (cases "new_files_of w fs0 (fs_after proc)") (simp_all add: record_test_def Let_def)
  next
    case ofs: (Inr ofs)
    let ?tc = "(if new_files_of w fs0 (fs_after proc) \<noteq> [] then set_key ''ofstreams'' (PList ofs)
               else (\<lambda>tc. tc))
                (describe_run tc0 (returncode proc) command
                   (lines (run (alive_polls w) (operator_input w))) (stdout proc) (stderr proc))"
    let ?doc = "document (PDict recipe) (PDict cases) test_name ?tc"
    have nil: "new_files_of w fs0 (fs_after proc) = [] \<Longrightarrow> ofs = [] \<and> fs2 = fs_after proc"
      using rel ofs by simp
    show ?thesis
    proof (cases "write_file fs2 configuration (yaml_dump w ?doc)")
      case (Inl e)
      with assms Inr x rel ofs tm nil show ?thesis
        by (cases "new_files_of w fs0 (fs_after proc) = []")
           (simp_all add: record_test_def Let_def)
    next
      case (Inr fs3)
      with assms \<open>open_recipe _ _ _ _ _ _ = Inr x\<close> x rel ofs tm nil
      have "doc = ?doc \<and> final_fs (record_test w fs0 configuration test_name command) = fs3 \<and>
            outcome (record_test w fs0 configuration test_name command) = Returned Success"
        by (cases "new_files_of w fs0 (fs_after proc) = []")
           (simp_all add: record_test_def Let_def)
      with that [of recipe cases tc0 ofs fs2] Inr \<open>open_recipe _ _ _ _ _ _ = Inr x\<close> x rel ofs tm
      show ?thesis by simp
    qed
  qed
qed





section \<open>The two implementations\<close>








lemma put_file_any_content:
  "(put_file es ns c = None) = (put_file es ns c' = None)"
  by (induction es ns c rule: put_file.induct)
     (auto split: option.splits node.splits)

lemma write_file_any_content:
  "(\<exists>fs'. write_file fs p c = Inr fs') = (\<exists>fs'. write_file fs p c' = Inr fs')"
  using put_file_any_content [of fs "components p" c c']
  by (auto simp: write_file_def split: option.splits)






section \<open>Paths and their components\<close>

lemma split_sep_nonempty: "split_sep p \<noteq> []"
  by (induction p) (auto split: list.splits)

lemma split_sep_append: "split_sep (a @ sep # b) = split_sep a @ split_sep b"
proof (induction a)
  case Nil
  then show ?case by simp
next
  case (Cons c a)
  then show ?case
    using split_sep_nonempty [of a]
    by (cases "split_sep a") (auto split: list.splits)
qed

lemma split_sep_name: "sep \<notin> set n \<Longrightarrow> split_sep n = [n]"
  by (induction n) auto

lemma split_sep_names:
  "sep \<notin> set r \<Longrightarrow> \<forall>n \<in> set ns. sep \<notin> set n \<Longrightarrow>
     split_sep (r @ concat (map (\<lambda>n. sep # n) ns)) = r # ns"
proof (induction ns arbitrary: r)
  case Nil
  then show ?case by (simp add: split_sep_name)
next
  case (Cons n ns)
  have "split_sep (r @ concat (map (\<lambda>n. sep # n) (n # ns))) =
        split_sep r @ split_sep (n @ concat (map (\<lambda>n. sep # n) ns))"
    using split_sep_append [of r "n @ concat (map (\<lambda>n. sep # n) ns)"] by simp
  with Cons show ?case by (simp add: split_sep_name)
qed

lemma components_path_of: "\<forall>n \<in> set ns. wf_name n \<Longrightarrow> components (path_of ns) = ns"
proof -
  assume a: "\<forall>n \<in> set ns. wf_name n"
  then have "split_sep (path_of ns) = ''.'' # ns"
    unfolding path_of_def
    by (intro split_sep_names) (auto simp: wf_name_def sep_def)
  moreover have "filter (\<lambda>w. w \<noteq> [] \<and> w \<noteq> ''.'') ns = ns"
    using a by (auto simp: wf_name_def filter_id_conv)
  ultimately show ?thesis by (simp add: components_def)
qed

lemma path_of_snoc: "path_of (ms @ [n]) = path_of ms @ sep # n"
  by (simp add: path_of_def)

lemma path_of_last: "\<forall>n \<in> set ms. wf_name n \<Longrightarrow> path_of ms \<noteq> [] \<and> last (path_of ms) \<noteq> sep"
proof (induction ms rule: rev_induct)
  case Nil
  then show ?case by (simp add: path_of_def sep_def)
next
  case (snoc n ms)
  then have "n \<noteq> []" "sep \<notin> set n" by (auto simp: wf_name_def)
  from \<open>n \<noteq> []\<close> have "last n \<in> set n" by (rule last_in_set)
  with \<open>sep \<notin> set n\<close> have "last n \<noteq> sep" by metis
  with \<open>n \<noteq> []\<close> show ?case by (simp add: path_of_snoc)
qed

lemma path_of_inject:
  assumes "\<forall>n \<in> set ns. wf_name n" and "\<forall>n \<in> set ms. wf_name n"
      and "path_of ns = path_of ms"
  shows "ns = ms"
proof -
  have "ns = components (path_of ns)"
    using components_path_of [OF assms(1)] by (rule sym)
  also have "\<dots> = components (path_of ms)"
    by (simp only: assms(3))
  also have "\<dots> = ms"
    by (rule components_path_of [OF assms(2)])
  finally show ?thesis .
qed

lemma path_join_name:
  "a \<noteq> [] \<Longrightarrow> last a \<noteq> sep \<Longrightarrow> n \<noteq> [] \<Longrightarrow> sep \<notin> set n \<Longrightarrow> path_join a n = a @ sep # n"
  by (cases n) (auto simp: path_join_def)

lemma path_split_snoc:
  assumes "\<forall>n \<in> set ms. wf_name n" and "wf_name n"
  shows "path_split (path_of (ms @ [n])) = (path_of ms, n)"
proof -
  have n: "sep \<notin> set n" using assms(2) by (simp add: wf_name_def)
  have l: "path_of ms \<noteq> []" "last (path_of ms) \<noteq> sep"
    using path_of_last [OF assms(1)] by auto
  have t: "takeWhile (\<lambda>c. c \<noteq> sep) (rev n @ sep # rev (path_of ms)) = rev n"
    using n by (auto simp: takeWhile_tail)
  have d: "dropWhile (\<lambda>c. c \<noteq> sep) (rev n @ sep # rev (path_of ms)) = sep # rev (path_of ms)"
    using n by (auto simp: dropWhile_append3)
  have h: "hd (rev (path_of ms)) \<noteq> sep"
    using l by (simp add: hd_rev)
  have dd: "dropWhile (\<lambda>c. c = sep) (rev (path_of ms)) = rev (path_of ms)"
    using l h by (cases "rev (path_of ms)") auto
  have "last (path_of ms) \<in> set (path_of ms)"
    using l by simp
  then have na: "\<not> list_all (\<lambda>c. c = sep) (path_of ms)"
    using l(2) by (auto simp: list_all_iff)
  show ?thesis
    using t d dd na l
    by (simp add: path_split_def path_of_snoc Let_def)
qed

lemma wf_name_contest: "wf_name n \<Longrightarrow> wf_name (''contest_'' @ n)"
  by (auto simp: wf_name_def sep_def)

lemma base_file_of_path_of:
  assumes "\<forall>n \<in> set ms. wf_name n" and "wf_name n"
  shows "base_file_of (path_of (ms @ [n])) = path_of (ms @ [''contest_'' @ n])"
proof -
  have "path_join (path_of ms) (''contest_'' @ n) = path_of ms @ sep # ''contest_'' @ n"
    using path_of_last [OF assms(1)] wf_name_contest [OF assms(2)]
    by (intro path_join_name) (auto simp: wf_name_def)
  then show ?thesis
    using path_split_snoc [OF assms]
    by (simp add: base_file_of_def path_of_snoc)
qed


section \<open>What moving and writing change\<close>

lemma stat_at_Nil [simp]: "stat_at fs [] = Directory"
  by (simp add: stat_at_def)

lemma stat_at_Cons:
  "stat_at fs (n # ns) =
     (case map_of fs n of
        None \<Rightarrow> Absent
      | Some (File c) \<Rightarrow> (if ns = [] then Regular c else Absent)
      | Some (Dir ds) \<Rightarrow> stat_at ds ns)"
  by (simp add: stat_at_def split: option.splits node.splits)

lemma stat_at_dir: "map_of es n = Some (Dir ds) \<Longrightarrow> stat_at es (n # ms) = stat_at ds ms"
  by (simp add: stat_at_Cons)

lemma stat_at_file:
  "map_of es n = Some (File c) \<Longrightarrow> stat_at es (n # ms) = (if ms = [] then Regular c else Absent)"
  by (simp add: stat_at_Cons)

lemma stat_at_none: "map_of es n = None \<Longrightarrow> stat_at es (n # ms) = Absent"
  by (simp add: stat_at_Cons)

lemma stat_at_update_dir:
  "stat_at (AList.update n (Dir ds) es) (m # ms) =
     (if m = n then stat_at ds ms else stat_at es (m # ms))"
  by (simp add: stat_at_Cons update_conv')

lemma stat_at_update_file:
  "stat_at (AList.update n (File c) es) (m # ms) =
     (if m = n then (if ms = [] then Regular c else Absent) else stat_at es (m # ms))"
  by (simp add: stat_at_Cons update_conv')

lemma stat_at_delete:
  "stat_at (AList.delete n es) (m # ms) = (if m = n then Absent else stat_at es (m # ms))"
  by (simp add: stat_at_Cons delete_conv')

lemma stat_at_below_file:
  "map_of es n \<noteq> None \<Longrightarrow> \<forall>ds. map_of es n \<noteq> Some (Dir ds) \<Longrightarrow> ms \<noteq> [] \<Longrightarrow>
     stat_at es (n # ms) = Absent"
  by (auto simp: stat_at_Cons split: option.splits node.splits)

lemma stat_put_file:
  "put_file fs ns c = Some fs' \<Longrightarrow>
     stat_at fs' ms = (if ms = ns then Regular c else stat_at fs ms)"
proof (induction fs ns c arbitrary: fs' ms rule: put_file.induct)
  case (1 es c)
  then show ?case by simp
next
  case (2 es n c)
  then have fs': "fs' = AList.update n (File c) es" and nd: "\<forall>ds. map_of es n \<noteq> Some (Dir ds)"
    by (auto split: option.splits node.splits)
  show ?case
  proof (cases ms)
    case Nil
    then show ?thesis by simp
  next
    case (Cons m ms')
    show ?thesis
    proof (cases "m = n \<and> ms' \<noteq> []")
      case True
      then have "stat_at es (n # ms') = Absent"
        using nd by (cases "map_of es n") (auto simp: stat_at_Cons split: node.splits)
      with True Cons fs' show ?thesis by (simp add: stat_at_update_file)
    next
      case False
      with Cons fs' show ?thesis by (auto simp: stat_at_update_file)
    qed
  qed
next
  case (3 es n v va c)
  from "3.prems" obtain ds ds' where
    ds: "map_of es n = Some (Dir ds)" and p: "put_file ds (v # va) c = Some ds'" and
    fs': "fs' = AList.update n (Dir ds') es"
    by (auto split: option.splits node.splits)
  have ih: "stat_at ds' ms' = (if ms' = v # va then Regular c else stat_at ds ms')" for ms'
    using "3.IH" [OF ds refl p] .
  show ?case
  proof (cases ms)
    case Nil
    then show ?thesis by simp
  next
    case (Cons m ms')
    with fs' ih ds show ?thesis
      by (simp add: stat_at_update_dir stat_at_dir)
  qed
qed

lemma stat_unlink:
  "stat_at fs ns = Regular c \<Longrightarrow>
     stat_at (unlink fs ns) ms = (if ms = ns then Absent else stat_at fs ms)"
proof (induction fs ns arbitrary: ms c rule: unlink.induct)
  case (1 es)
  then show ?case by simp
next
  case (2 es n)
  then have f: "map_of es n = Some (File c)"
    by (auto simp: stat_at_Cons split: option.splits node.splits)
  show ?case
  proof (cases ms)
    case Nil
    then show ?thesis by simp
  next
    case (Cons m ms')
    with f show ?thesis
      by (auto simp: stat_at_delete stat_at_file)
  qed
next
  case (3 es n v va)
  from "3.prems" obtain ds where
    ds: "map_of es n = Some (Dir ds)" and r: "stat_at ds (v # va) = Regular c"
    by (auto simp: stat_at_Cons [of es n] split: option.splits node.splits if_splits)
  have ih: "stat_at (unlink ds (v # va)) ms' = (if ms' = v # va then Absent else stat_at ds ms')"
    for ms'
    using "3.IH" [OF ds refl r] .
  show ?case
  proof (cases ms)
    case Nil
    then show ?thesis by simp
  next
    case (Cons m ms')
    with ds ih show ?thesis
      by (simp add: stat_at_update_dir stat_at_dir)
  qed
qed

lemma stat_parent:
  "stat_at fs ns = Regular c \<Longrightarrow> ns \<noteq> [] \<and> stat_at fs (butlast ns) = Directory"
proof (induction ns arbitrary: fs)
  case Nil
  then show ?case by simp
next
  case (Cons n ns)
  show ?case
  proof (cases "map_of fs n")
    case None
    with Cons.prems show ?thesis by (simp add: stat_at_none)
  next
    case (Some x)
    show ?thesis
    proof (cases x)
      case (File c')
      with Some Cons.prems have "ns = []"
        by (simp add: stat_at_file split: if_splits)
      then show ?thesis by simp
    next
      case (Dir ds)
      with Some Cons.prems have "stat_at ds ns = Regular c"
        by (simp add: stat_at_dir)
      from Cons.IH [OF this] Some Dir show ?thesis
        by (simp add: stat_at_dir)
    qed
  qed
qed

lemma put_file_succeeds:
  "ns \<noteq> [] \<Longrightarrow> stat_at fs (butlast ns) = Directory \<Longrightarrow> stat_at fs ns \<noteq> Directory \<Longrightarrow>
     \<exists>fs'. put_file fs ns c = Some fs'"
proof (induction fs ns c rule: put_file.induct)
  case (1 es c)
  then show ?case by simp
next
  case (2 es n c)
  then have "\<forall>ds. map_of es n \<noteq> Some (Dir ds)"
    by (auto simp: stat_at_Cons)
  then show ?case
    by (auto split: option.splits node.splits)
next
  case (3 es n v va c)
  from "3.prems"(2) obtain ds where
    ds: "map_of es n = Some (Dir ds)" and b: "stat_at ds (butlast (v # va)) = Directory"
    by (auto simp: stat_at_Cons [of es n] split: option.splits node.splits if_splits)
  from "3.prems"(3) ds have "stat_at ds (v # va) \<noteq> Directory"
    by (simp add: stat_at_dir)
  from "3.IH" [OF ds refl _ b this] obtain ds' where "put_file ds (v # va) c = Some ds'"
    by auto
  with ds show ?case by simp
qed


section \<open>The files \<^verbatim>\<open>get_files\<close> finds\<close>

lemma stat_at_Regular: "stat_at fs ns = Regular c \<longleftrightarrow> lookup fs ns = Some (File c)"
  by (auto simp: stat_at_def split: option.splits node.splits)

lemma isdir_stat: "isdir fs p \<longleftrightarrow> stat_at fs (components p) = Directory"
  by (auto simp: isdir_def stat_at_def split: option.splits node.splits)

lemma exists_stat: "exists fs p \<longleftrightarrow> stat_at fs (components p) \<noteq> Absent"
  by (auto simp: exists_def stat_at_def split: option.splits node.splits)

lemma read_file_stat: "read_file fs p = Inr c \<longleftrightarrow> stat_at fs (components p) = Regular c"
  by (auto simp: read_file_def stat_at_def split: option.splits node.splits)

lemma stat_at_known_name:
  "stat_at es (n # ns) \<noteq> Absent \<Longrightarrow> n \<in> fst ` set es"
  by (auto simp: stat_at_Cons split: option.splits dest: map_of_SomeD intro: rev_image_eqI)

lemma stat_at_skip:
  "n \<noteq> el \<Longrightarrow> stat_at ((el, x) # rest) (n # ns) = stat_at rest (n # ns)"
  by (simp add: stat_at_Cons)

lemma last_of_name: "n \<noteq> [] \<Longrightarrow> sep \<notin> set n \<Longrightarrow> last n \<noteq> sep"
  by (metis last_in_set)

lemma get_files_sound:
  assumes "wf_dir es" and "r \<noteq> []" and "last r \<noteq> sep" and "p \<in> set (get_files r es)"
  shows "\<exists>ns c. ns \<noteq> [] \<and> (\<forall>n \<in> set ns. wf_name n) \<and>
           p = r @ concat (map (\<lambda>n. sep # n) ns) \<and> stat_at es ns = Regular c"
  using assms
proof (induction r es arbitrary: p rule: get_files.induct)
  case (1 root)
  then show ?case by simp
next
  case (2 root el c rest)
  from "2.prems"(1) have wf: "wf_name el" "el \<notin> fst ` set rest" "wf_dir rest"
    by auto
  have j: "path_join root el = root @ sep # el"
    using "2.prems"(2,3) wf(1) by (intro path_join_name) (auto simp: wf_name_def)
  show ?case
  proof (cases "p = path_join root el")
    case True
    have "stat_at ((el, File c) # rest) [el] = Regular c"
      by (simp add: stat_at_Cons)
    with True j wf(1) show ?thesis
      by (intro exI [of _ "[el]"] exI [of _ c]) simp
  next
    case False
    with "2.prems"(4) have "p \<in> set (get_files root rest)" by simp
    from "2.IH" [OF wf(3) "2.prems"(2,3) this] obtain ns c' where
      ns: "ns \<noteq> []" "\<forall>n \<in> set ns. wf_name n" "p = root @ concat (map (\<lambda>n. sep # n) ns)"
          "stat_at rest ns = Regular c'"
      by blast
    obtain n ns' where nn: "ns = n # ns'" using ns(1) by (cases ns) auto
    with ns(4) have "n \<in> fst ` set rest"
      using stat_at_known_name [of rest n ns'] by simp
    with wf(2) have "n \<noteq> el" by auto
    with ns nn have "stat_at ((el, File c) # rest) ns = Regular c'"
      by (simp add: stat_at_skip)
    with ns show ?thesis by blast
  qed
next
  case (3 root el ds rest)
  from "3.prems"(1) have wf: "wf_name el" "el \<notin> fst ` set rest" "wf_dir ds" "wf_dir rest"
    by auto
  have j: "path_join root el = root @ sep # el"
    using "3.prems"(2,3) wf(1) by (intro path_join_name) (auto simp: wf_name_def)
  have el: "el \<noteq> []" "sep \<notin> set el" using wf(1) by (auto simp: wf_name_def)
  have l: "root @ sep # el \<noteq> []" "last (root @ sep # el) \<noteq> sep"
    using el last_of_name [OF el] by auto
  show ?case
  proof (cases "p \<in> set (get_files (path_join root el) ds)")
    case True
    from "3.IH"(1) [OF wf(3) _ _ True] j l obtain ns c' where
      ns: "ns \<noteq> []" "\<forall>n \<in> set ns. wf_name n"
          "p = (root @ sep # el) @ concat (map (\<lambda>n. sep # n) ns)"
          "stat_at ds ns = Regular c'"
      by auto
    have "stat_at ((el, Dir ds) # rest) (el # ns) = Regular c'"
      using ns(4) by (simp add: stat_at_Cons)
    with ns wf(1) show ?thesis
      by (intro exI [of _ "el # ns"] exI [of _ c']) simp
  next
    case False
    with "3.prems"(4) have "p \<in> set (get_files root rest)" by simp
    from "3.IH"(2) [OF wf(4) "3.prems"(2,3) this] obtain ns c' where
      ns: "ns \<noteq> []" "\<forall>n \<in> set ns. wf_name n" "p = root @ concat (map (\<lambda>n. sep # n) ns)"
          "stat_at rest ns = Regular c'"
      by blast
    obtain n ns' where nn: "ns = n # ns'" using ns(1) by (cases ns) auto
    with ns(4) have "n \<in> fst ` set rest"
      using stat_at_known_name [of rest n ns'] by simp
    with wf(2) have "n \<noteq> el" by auto
    with ns nn have "stat_at ((el, Dir ds) # rest) ns = Regular c'"
      by (simp add: stat_at_skip)
    with ns show ?thesis by blast
  qed
qed

lemma get_files_dot:
  assumes "wf_dir fs" and "p \<in> set (get_files ''.'' fs)"
  obtains ms n c where "p = path_of (ms @ [n])" "\<forall>m \<in> set ms. wf_name m" "wf_name n"
    "stat_at fs (ms @ [n]) = Regular c"
proof -
  from get_files_sound [OF assms(1) _ _ assms(2)] obtain ns c where
    ns: "ns \<noteq> []" "\<forall>n \<in> set ns. wf_name n" "p = ''.'' @ concat (map (\<lambda>n. sep # n) ns)"
        "stat_at fs ns = Regular c"
    by (auto simp: sep_def)
  from ns(1) have "ns = butlast ns @ [last ns]" by simp
  moreover from ns(1,2) have "\<forall>m \<in> set (butlast ns). wf_name m" "wf_name (last ns)"
    by (auto dest: in_set_butlastD)
  ultimately show ?thesis
    using that [of "butlast ns" "last ns" c] ns(3,4) by (simp add: path_of_def)
qed


section \<open>Moving the new files\<close>

lemma shutil_move_stat:
  assumes "stat_at fs (components src) = Regular c"
      and "stat_at fs (components dst) \<noteq> Directory"
      and "components dst \<noteq> []"
      and "butlast (components dst) = butlast (components src)"
      and "components dst \<noteq> components src"
  shows "\<exists>fs'. shutil_move fs src dst = Inr fs' \<and>
           (\<forall>ms. stat_at fs' ms =
              (if ms = components dst then Regular c
               else if ms = components src then Absent
               else stat_at fs ms))"
proof -
  let ?s = "components src" and ?d = "components dst"
  have l: "lookup fs ?s = Some (File c)"
    using assms(1) by (simp add: stat_at_Regular)
  have nd: "\<not> isdir fs dst"
    using assms(2) by (simp add: isdir_stat)
  from stat_parent [OF assms(1)] have s: "?s \<noteq> []" "stat_at fs (butlast ?s) = Directory"
    by auto
  have u: "stat_at (unlink fs ?s) ms = (if ms = ?s then Absent else stat_at fs ms)" for ms
    by (rule stat_unlink [OF assms(1)])
  have "butlast ?s \<noteq> ?s"
    using s(1) by (metis append_butlast_last_id append_self_conv not_Cons_self)
  then have "stat_at (unlink fs ?s) (butlast ?d) = Directory"
    using u s(2) assms(4) by simp
  moreover have "stat_at (unlink fs ?s) ?d \<noteq> Directory"
    using u assms(2,5) by simp
  ultimately obtain fs' where p: "put_file (unlink fs ?s) ?d c = Some fs'"
    using put_file_succeeds [OF assms(3), of "unlink fs ?s" c] by blast
  have "stat_at fs' ms =
          (if ms = ?d then Regular c else if ms = ?s then Absent else stat_at fs ms)" for ms
    using stat_put_file [OF p, of ms] u [of ms] by simp
  moreover have "shutil_move fs src dst = Inr fs'"
    using l nd p by (simp add: shutil_move_def)
  ultimately show ?thesis by blast
qed

lemma relocate_stat:
  assumes "distinct nf"
      and "\<forall>f \<in> set nf. \<exists>c. stat_at fs (components f) = Regular c"
      and "\<forall>f \<in> set nf. stat_at fs (components (base_file_of f)) \<noteq> Directory"
      and "\<forall>f \<in> set nf. components (base_file_of f) \<noteq> [] \<and>
             butlast (components (base_file_of f)) = butlast (components f)"
      and "\<forall>f \<in> set nf. \<forall>g \<in> set nf. components (base_file_of f) \<noteq> components g"
      and "\<forall>f \<in> set nf. \<forall>g \<in> set nf. f \<noteq> g \<longrightarrow>
             components f \<noteq> components g \<and>
             components (base_file_of f) \<noteq> components (base_file_of g)"
  shows "\<exists>fs'. relocate fs nf acc = (Inr (acc @ map ofstream nf), fs') \<and>
           (\<forall>f \<in> set nf. stat_at fs' (components f) = Absent \<and>
              stat_at fs' (components (base_file_of f)) = stat_at fs (components f)) \<and>
           (\<forall>ms. ms \<notin> components ` set nf \<longrightarrow>
                 ms \<notin> (\<lambda>f. components (base_file_of f)) ` set nf \<longrightarrow>
                 stat_at fs' ms = stat_at fs ms)"
  using assms
proof (induction nf arbitrary: fs acc)
  case Nil
  then show ?case by simp
next
  case (Cons f rest)
  let ?s = "\<lambda>f. components f" and ?d = "\<lambda>f. components (base_file_of f)"
  from Cons.prems(2) obtain c where c: "stat_at fs (?s f) = Regular c" by auto
  from Cons.prems(5) have df: "?d f \<noteq> ?s f" by simp
  from shutil_move_stat [OF c, of "base_file_of f"] Cons.prems(3,4) df
  obtain fs1 where
    m: "shutil_move fs f (base_file_of f) = Inr fs1" and
    st: "\<And>ms. stat_at fs1 ms =
           (if ms = ?d f then Regular c else if ms = ?s f then Absent else stat_at fs ms)"
    by auto
  have frest: "g \<noteq> f" if "g \<in> set rest" for g
    using Cons.prems(1) that by auto
  have keep_s: "stat_at fs1 (?s g) = stat_at fs (?s g)" if "g \<in> set rest" for g
    using st [of "?s g"] Cons.prems(5,6) frest [OF that] that by auto
  have keep_d: "stat_at fs1 (?d g) = stat_at fs (?d g)" if "g \<in> set rest" for g
    using st [of "?d g"] Cons.prems(5,6) frest [OF that] that by auto
  have "\<exists>fs'. relocate fs1 rest (acc @ [ofstream f]) =
           (Inr ((acc @ [ofstream f]) @ map ofstream rest), fs') \<and>
           (\<forall>g \<in> set rest. stat_at fs' (?s g) = Absent \<and>
              stat_at fs' (?d g) = stat_at fs1 (?s g)) \<and>
           (\<forall>ms. ms \<notin> ?s ` set rest \<longrightarrow> ms \<notin> ?d ` set rest \<longrightarrow>
                 stat_at fs' ms = stat_at fs1 ms)"
  proof (rule Cons.IH)
    show "distinct rest" using Cons.prems(1) by simp
    show "\<forall>g \<in> set rest. \<exists>c. stat_at fs1 (?s g) = Regular c"
      using Cons.prems(2) keep_s by simp
    show "\<forall>g \<in> set rest. stat_at fs1 (?d g) \<noteq> Directory"
      using Cons.prems(3) keep_d by simp
    show "\<forall>g \<in> set rest. ?d g \<noteq> [] \<and> butlast (?d g) = butlast (?s g)"
      using Cons.prems(4) by simp
    show "\<forall>g \<in> set rest. \<forall>h \<in> set rest. ?d g \<noteq> ?s h"
      using Cons.prems(5) by simp
    show "\<forall>g \<in> set rest. \<forall>h \<in> set rest. g \<noteq> h \<longrightarrow> ?s g \<noteq> ?s h \<and> ?d g \<noteq> ?d h"
      using Cons.prems(6) by simp
  qed
  then obtain fs' where
    r: "relocate fs1 rest (acc @ [ofstream f]) =
          (Inr ((acc @ [ofstream f]) @ map ofstream rest), fs')" and
    a: "\<And>g. g \<in> set rest \<Longrightarrow> stat_at fs' (?s g) = Absent \<and>
              stat_at fs' (?d g) = stat_at fs1 (?s g)" and
    fr: "\<And>ms. ms \<notin> ?s ` set rest \<Longrightarrow> ms \<notin> ?d ` set rest \<Longrightarrow>
              stat_at fs' ms = stat_at fs1 ms"
    by blast
  have sf: "?s f \<notin> ?s ` set rest" "?s f \<notin> ?d ` set rest"
    using Cons.prems(5,6) frest by auto
  have dfn: "?d f \<notin> ?s ` set rest" "?d f \<notin> ?d ` set rest"
    using Cons.prems(5,6) frest by auto
  have 1: "relocate fs (f # rest) acc = (Inr (acc @ map ofstream (f # rest)), fs')"
    using m r by simp
  have 2: "stat_at fs' (?s f) = Absent \<and> stat_at fs' (?d f) = stat_at fs (?s f)"
    using fr [OF sf] fr [OF dfn] st [of "?s f"] st [of "?d f"] df c by simp
  have 3: "stat_at fs' (?s g) = Absent \<and> stat_at fs' (?d g) = stat_at fs (?s g)"
    if "g \<in> set rest" for g
    using a [OF that] keep_s [OF that] by simp
  have 4: "stat_at fs' ms = stat_at fs ms"
    if "ms \<notin> ?s ` set (f # rest)" "ms \<notin> ?d ` set (f # rest)" for ms
  proof -
    from that have "ms \<notin> ?s ` set rest" "ms \<notin> ?d ` set rest" "ms \<noteq> ?s f" "ms \<noteq> ?d f"
      by auto
    with fr [of ms] st [of ms] show ?thesis by simp
  qed
  from 1 2 3 4 show ?case
    by (intro exI [of _ fs']) auto
qed


section \<open>The new files of a recording\<close>

lemma new_files_of_set:
  assumes "iterates_sets w"
  shows "distinct (new_files_of w fs0 fs1)"
    and "set (new_files_of w fs0 fs1) = set (get_files ''.'' fs1) - set (get_files ''.'' fs0)"
  using assms
  by (auto simp: iterates_sets_def new_files_of_def)

lemma new_file_shape:
  assumes "wf_dir fs" and "f \<in> set (get_files ''.'' fs)"
  obtains ms n c where
    "f = path_of (ms @ [n])" "components f = ms @ [n]"
    "base_file_of f = path_of (ms @ [''contest_'' @ n])"
    "components (base_file_of f) = ms @ [''contest_'' @ n]"
    "stat_at fs (ms @ [n]) = Regular c"
proof -
  from get_files_dot [OF assms] obtain ms n c where
    f: "f = path_of (ms @ [n])" and wf: "\<forall>m \<in> set ms. wf_name m" "wf_name n" and
    st: "stat_at fs (ms @ [n]) = Regular c"
    by blast
  have 1: "components f = ms @ [n]"
    unfolding f using wf by (intro components_path_of) auto
  have 2: "base_file_of f = path_of (ms @ [''contest_'' @ n])"
    unfolding f by (rule base_file_of_path_of [OF wf])
  have 3: "components (base_file_of f) = ms @ [''contest_'' @ n]"
    unfolding 2 using wf wf_name_contest [OF wf(2)] by (intro components_path_of) auto
  from that [OF f 1 2 3 st] show ?thesis .
qed

lemma relocate_new_files:
  assumes "wf_dir fs" and "distinct nf" and "set nf \<subseteq> set (get_files ''.'' fs)"
      and "\<forall>f \<in> set nf. \<not> isdir fs (base_file_of f)"
      and "\<forall>f \<in> set nf. base_file_of f \<notin> set nf"
  shows "\<exists>fs'. relocate fs nf acc = (Inr (acc @ map ofstream nf), fs') \<and>
           (\<forall>f \<in> set nf. stat_at fs' (components f) = Absent \<and>
              stat_at fs' (components (base_file_of f)) = stat_at fs (components f)) \<and>
           (\<forall>ms. ms \<notin> components ` set nf \<longrightarrow>
                 ms \<notin> (\<lambda>f. components (base_file_of f)) ` set nf \<longrightarrow>
                 stat_at fs' ms = stat_at fs ms)"
proof (rule relocate_stat [OF assms(2)])
  have shape: "\<exists>ms n c. f = path_of (ms @ [n]) \<and> components f = ms @ [n] \<and>
      base_file_of f = path_of (ms @ [''contest_'' @ n]) \<and>
      components (base_file_of f) = ms @ [''contest_'' @ n] \<and>
      stat_at fs (ms @ [n]) = Regular c" if "f \<in> set nf" for f
  proof -
    from that assms(3) have "f \<in> set (get_files ''.'' fs)" by auto
    from new_file_shape [OF assms(1) this] obtain ms n c where
      "f = path_of (ms @ [n])" "components f = ms @ [n]"
      "base_file_of f = path_of (ms @ [''contest_'' @ n])"
      "components (base_file_of f) = ms @ [''contest_'' @ n]"
      "stat_at fs (ms @ [n]) = Regular c"
      by blast
    then show ?thesis by blast
  qed
  show "\<forall>f \<in> set nf. \<exists>c. stat_at fs (components f) = Regular c"
  proof
    fix f assume "f \<in> set nf"
    from shape [OF this] obtain ms n c where
      "components f = ms @ [n]" "stat_at fs (ms @ [n]) = Regular c"
      by blast
    then show "\<exists>c. stat_at fs (components f) = Regular c" by simp
  qed
  show "\<forall>f \<in> set nf. stat_at fs (components (base_file_of f)) \<noteq> Directory"
    using assms(4) by (simp add: isdir_stat)
  show "\<forall>f \<in> set nf. components (base_file_of f) \<noteq> [] \<and>
          butlast (components (base_file_of f)) = butlast (components f)"
  proof
    fix f assume "f \<in> set nf"
    from shape [OF this] obtain ms n where
      "components f = ms @ [n]" "components (base_file_of f) = ms @ [''contest_'' @ n]"
      by blast
    then show "components (base_file_of f) \<noteq> [] \<and>
          butlast (components (base_file_of f)) = butlast (components f)"
      by simp
  qed
  show "\<forall>f \<in> set nf. \<forall>g \<in> set nf. components (base_file_of f) \<noteq> components g"
  proof (intro ballI notI)
    fix f g assume fg: "f \<in> set nf" "g \<in> set nf"
      and eq: "components (base_file_of f) = components g"
    from shape [OF fg(1)] obtain ms n where
      f: "base_file_of f = path_of (ms @ [''contest_'' @ n])"
         "components (base_file_of f) = ms @ [''contest_'' @ n]"
      by blast
    from shape [OF fg(2)] obtain ms' n' where
      g: "g = path_of (ms' @ [n'])" "components g = ms' @ [n']"
      by blast
    from eq f g have "base_file_of f = g" by simp
    with assms(5) fg show False by auto
  qed
  show "\<forall>f \<in> set nf. \<forall>g \<in> set nf. f \<noteq> g \<longrightarrow>
          components f \<noteq> components g \<and>
          components (base_file_of f) \<noteq> components (base_file_of g)"
  proof (intro ballI impI)
    fix f g assume fg: "f \<in> set nf" "g \<in> set nf" and ne: "f \<noteq> g"
    from shape [OF fg(1)] obtain ms n where
      f: "f = path_of (ms @ [n])" "components f = ms @ [n]"
         "components (base_file_of f) = ms @ [''contest_'' @ n]"
      by blast
    from shape [OF fg(2)] obtain ms' n' where
      g: "g = path_of (ms' @ [n'])" "components g = ms' @ [n']"
         "components (base_file_of g) = ms' @ [''contest_'' @ n']"
      by blast
    from ne f(1) g(1) have "ms @ [n] \<noteq> ms' @ [n']" by auto
    then show "components f \<noteq> components g \<and>
          components (base_file_of f) \<noteq> components (base_file_of g)"
      using f g by auto
  qed
qed


section \<open>New files and their ofstream entries\<close>

lemma ofstream_entry:
  "ofstream f = PDict [(PStr ''base-file'', PStr (base_file_of f)), (PStr ''test-file'', PStr f)]"
  by (simp add: ofstream_def set_key_def)

lemma record_test_moves:
  assumes "popen w command fs0 = Some proc"
      and "wf_dir (fs_after proc)"
      and "iterates_sets w"
      and "\<forall>f \<in> set (new_files_of w fs0 (fs_after proc)). \<not> isdir (fs_after proc) (base_file_of f)"
      and "\<forall>f \<in> set (new_files_of w fs0 (fs_after proc)).
             base_file_of f \<notin> set (new_files_of w fs0 (fs_after proc))"
      and "dumped (record_test w fs0 configuration test_name command) = Some doc"
  obtains tc0 fs2 where
    "recorded_case doc test_name =
       Some ((if new_files_of w fs0 (fs_after proc) \<noteq> []
              then set_key ''ofstreams'' (PList (map ofstream (new_files_of w fs0 (fs_after proc))))
              else (\<lambda>tc. tc))
               (describe_run tc0 (returncode proc) command
                  (lines (run (alive_polls w) (operator_input w))) (stdout proc) (stderr proc)))"
    "\<not> has_key tc0 ''ofstreams''"
    "write_file fs2 configuration (yaml_dump w doc) =
       Inr (final_fs (record_test w fs0 configuration test_name command))"
    "outcome (record_test w fs0 configuration test_name command) = Returned Success"
    "\<forall>f \<in> set (new_files_of w fs0 (fs_after proc)).
       stat_at fs2 (components f) = Absent \<and>
       stat_at fs2 (components (base_file_of f)) = stat_at (fs_after proc) (components f)"
    "\<forall>f \<in> set (new_files_of w fs0 (fs_after proc)).
       \<exists>c. stat_at (fs_after proc) (components f) = Regular c"
proof -
  let ?fs1 = "fs_after proc"
  let ?nf = "new_files_of w fs0 ?fs1"
  from assms(1,6) obtain recipe cases tc0 ofs fs2 where
    o: "open_recipe w DefaultLoader ?fs1 configuration test_name command =
          Inr (PDict recipe, PDict cases, tc0)" and
    rel: "relocate ?fs1 ?nf [] = (Inr ofs, fs2)" and
    doc: "doc = document (PDict recipe) (PDict cases) test_name
             ((if ?nf \<noteq> [] then set_key ''ofstreams'' (PList ofs) else (\<lambda>tc. tc))
                (describe_run tc0 (returncode proc) command
                   (lines (run (alive_polls w) (operator_input w))) (stdout proc) (stderr proc)))"
      and
    wr: "write_file fs2 configuration (yaml_dump w doc) =
           Inr (final_fs (record_test w fs0 configuration test_name command))" and
    ok: "outcome (record_test w fs0 configuration test_name command) = Returned Success"
    by (rule record_test_dumped)
  have d: "distinct ?nf" and s: "set ?nf \<subseteq> set (get_files ''.'' ?fs1)"
    using new_files_of_set [OF assms(3), of fs0 ?fs1] by auto
  from relocate_new_files [OF assms(2) d s assms(4,5), of "[]"] rel
  have ofs: "ofs = map ofstream ?nf" and
    st: "\<forall>f \<in> set ?nf. stat_at fs2 (components f) = Absent \<and>
           stat_at fs2 (components (base_file_of f)) = stat_at ?fs1 (components f)"
    by auto
  have reg: "\<forall>f \<in> set ?nf. \<exists>c. stat_at ?fs1 (components f) = Regular c"
  proof
    fix f assume "f \<in> set ?nf"
    with s have "f \<in> set (get_files ''.'' ?fs1)" by auto
    from new_file_shape [OF assms(2) this] obtain ms n c where
      "components f = ms @ [n]" "stat_at ?fs1 (ms @ [n]) = Regular c"
      by blast
    then show "\<exists>c. stat_at ?fs1 (components f) = Regular c" by simp
  qed
  have k: "\<not> has_key tc0 ''ofstreams''"
    using open_recipe_Inr(2) [OF o, of "''ofstreams''"] by auto
  have rc: "recorded_case doc test_name =
       Some ((if ?nf \<noteq> [] then set_key ''ofstreams'' (PList (map ofstream ?nf)) else (\<lambda>tc. tc))
               (describe_run tc0 (returncode proc) command
                  (lines (run (alive_polls w) (operator_input w))) (stdout proc) (stderr proc)))"
    unfolding doc recorded_case_document ofs ..
  from that [OF rc k wr ok st reg] show ?thesis .
qed

lemma write_file_stat:
  "write_file fs p c = Inr fs' \<Longrightarrow>
     stat_at fs' ms = (if ms = components p then Regular c else stat_at fs ms)"
  using stat_put_file [of fs "components p" c fs' ms]
  by (auto simp: write_file_def split: option.splits)

lemma describe_run_return_code:
  "map_of (describe_run tc0 rc command recorded out err) (PStr ''return-code'') = Some (PInt rc)"
  by (simp add: describe_run_def Let_def map_of_set_key)

text \<open>
  C2, as the code has it. Take a recording that completes in a working directory whose
  entry names are well formed, where no base-file path is a directory, no new file
  stands at the base-file path of another new file, and the recipe is neither a new
  file nor at a base-file path. Then the new files, each once, are the files
  \<^verbatim>\<open>get_files('.')\<close> reports after the run and not before; the test case has one
  ofstream entry for each of them, in the order of the iteration, and no \<^verbatim>\<open>ofstreams\<close>
  key when there is none; the \<^verbatim>\<open>test-file\<close> of an entry is the path as
  \<^verbatim>\<open>get_files('.')\<close> reports it, which starts with \<^verbatim>\<open>./\<close>, and its \<^verbatim>\<open>base-file\<close> is
  that path with \<^verbatim>\<open>contest_\<close> before the file name; afterwards nothing stands at the
  original path and the base-file path holds the content the file had.
\<close>

theorem new_files_become_ofstreams:
  assumes "popen w command fs0 = Some proc"
      and "nf = new_files_of w fs0 (fs_after proc)"
      and "r = record_test w fs0 configuration test_name command"
      and "wf_dir (fs_after proc)"
      and "iterates_sets w"
      and "\<forall>f \<in> set nf. \<not> isdir (fs_after proc) (base_file_of f)"
      and "\<forall>f \<in> set nf. base_file_of f \<notin> set nf"
      and "\<forall>f \<in> set nf. components configuration \<noteq> components f \<and>
             components configuration \<noteq> components (base_file_of f)"
      and "dumped r = Some doc"
  shows "distinct nf \<and>
         set nf = set (get_files ''.'' (fs_after proc)) - set (get_files ''.'' fs0) \<and>
         (\<exists>tc. recorded_case doc test_name = Some tc \<and>
            map_of tc (PStr ''return-code'') = Some (PInt (returncode proc)) \<and>
            (if nf = [] then \<not> has_key tc ''ofstreams''
             else map_of tc (PStr ''ofstreams'') =
                    Some (PList (map (\<lambda>f. PDict [(PStr ''base-file'', PStr (base_file_of f)),
                                                  (PStr ''test-file'', PStr f)]) nf)))) \<and>
         (\<forall>f \<in> set nf.
            (\<exists>ms n. f = path_of (ms @ [n]) \<and> base_file_of f = path_of (ms @ [''contest_'' @ n])) \<and>
            \<not> exists (final_fs r) f \<and>
            (\<exists>c. read_file (fs_after proc) f = Inr c \<and>
                 read_file (final_fs r) (base_file_of f) = Inr c))"
proof -
  let ?fs1 = "fs_after proc"
  let ?nf = "new_files_of w fs0 ?fs1"
  let ?r = "record_test w fs0 configuration test_name command"
  have d: "dumped ?r = Some doc"
    using assms(3,9) by simp
  have h6: "\<forall>f \<in> set ?nf. \<not> isdir ?fs1 (base_file_of f)"
    using assms(6) unfolding assms(2) .
  have h7: "\<forall>f \<in> set ?nf. base_file_of f \<notin> set ?nf"
    using assms(7) unfolding assms(2) .
  have h8: "\<forall>f \<in> set ?nf. components configuration \<noteq> components f \<and>
             components configuration \<noteq> components (base_file_of f)"
    using assms(8) unfolding assms(2) .
  obtain tc0 fs2 where
    rc: "recorded_case doc test_name =
       Some ((if ?nf \<noteq> [] then set_key ''ofstreams'' (PList (map ofstream ?nf)) else (\<lambda>tc. tc))
               (describe_run tc0 (returncode proc) command
                  (lines (run (alive_polls w) (operator_input w))) (stdout proc) (stderr proc)))"
      and
    k: "\<not> has_key tc0 ''ofstreams''" and
    wr: "write_file fs2 configuration (yaml_dump w doc) = Inr (final_fs ?r)" and
    st: "\<forall>f \<in> set ?nf. stat_at fs2 (components f) = Absent \<and>
           stat_at fs2 (components (base_file_of f)) = stat_at ?fs1 (components f)" and
    reg: "\<forall>f \<in> set ?nf. \<exists>c. stat_at ?fs1 (components f) = Regular c"
    by (rule record_test_moves [OF assms(1,4,5) h6 h7 d])
  have 1: "distinct ?nf"
    by (rule new_files_of_set(1) [OF assms(5)])
  have 2: "set ?nf = set (get_files ''.'' ?fs1) - set (get_files ''.'' fs0)"
    by (rule new_files_of_set(2) [OF assms(5)])
  have 3: "\<exists>tc. recorded_case doc test_name = Some tc \<and>
            map_of tc (PStr ''return-code'') = Some (PInt (returncode proc)) \<and>
            (if ?nf = [] then \<not> has_key tc ''ofstreams''
             else map_of tc (PStr ''ofstreams'') =
                    Some (PList (map (\<lambda>f. PDict [(PStr ''base-file'', PStr (base_file_of f)),
                                                  (PStr ''test-file'', PStr f)]) ?nf)))"
  proof (cases "?nf = []")
    case True
    with rc k show ?thesis
      by (simp add: describe_run_return_code has_key_describe_run)
  next
    case False
    have "map ofstream ?nf =
            map (\<lambda>f. PDict [(PStr ''base-file'', PStr (base_file_of f)),
                             (PStr ''test-file'', PStr f)]) ?nf"
      by (simp add: ofstream_entry)
    with False rc show ?thesis
      by (simp add: map_of_set_key describe_run_return_code)
  qed
  have 4: "\<forall>f \<in> set ?nf.
            (\<exists>ms n. f = path_of (ms @ [n]) \<and> base_file_of f = path_of (ms @ [''contest_'' @ n])) \<and>
            \<not> exists (final_fs ?r) f \<and>
            (\<exists>c. read_file ?fs1 f = Inr c \<and> read_file (final_fs ?r) (base_file_of f) = Inr c)"
  proof
    fix f assume f: "f \<in> set ?nf"
    with 2 have "f \<in> set (get_files ''.'' ?fs1)" by auto
    from new_file_shape [OF assms(4) this] obtain ms n where
      sh: "f = path_of (ms @ [n])" "base_file_of f = path_of (ms @ [''contest_'' @ n])"
      by blast
    from reg f obtain c where c: "stat_at ?fs1 (components f) = Regular c" by blast
    from st f have a: "stat_at fs2 (components f) = Absent"
      and b: "stat_at fs2 (components (base_file_of f)) = stat_at ?fs1 (components f)"
      by auto
    from h8 f have ne: "components f \<noteq> components configuration"
      "components (base_file_of f) \<noteq> components configuration"
      by auto
    have x: "stat_at (final_fs ?r) (components f) = Absent"
      using write_file_stat [OF wr, of "components f"] a ne by simp
    have y: "stat_at (final_fs ?r) (components (base_file_of f)) = Regular c"
      using write_file_stat [OF wr, of "components (base_file_of f)"] b c ne by simp
    have "\<exists>ms n. f = path_of (ms @ [n]) \<and> base_file_of f = path_of (ms @ [''contest_'' @ n])"
      using sh by blast
    moreover have "\<not> exists (final_fs ?r) f"
      using x by (simp add: exists_stat)
    moreover have "\<exists>c. read_file ?fs1 f = Inr c \<and>
                       read_file (final_fs ?r) (base_file_of f) = Inr c"
      using c y by (simp add: read_file_stat)
    ultimately show "(\<exists>ms n. f = path_of (ms @ [n]) \<and>
                        base_file_of f = path_of (ms @ [''contest_'' @ n])) \<and>
            \<not> exists (final_fs ?r) f \<and>
            (\<exists>c. read_file ?fs1 f = Inr c \<and> read_file (final_fs ?r) (base_file_of f) = Inr c)"
      by (intro conjI)
  qed
  show ?thesis
    unfolding assms(2) assms(3)
    using 1 2 3 4 by (intro conjI)
qed

theorem new_files_become_ofstreams_witness:
  "(\<exists>tc. recorded_case
           (PDict [(PStr ''executable'', PStr ''writer''),
                   (PStr ''test-cases'',
                    PDict [(PStr ''c'',
                            PDict [(PStr ''return-code'', PInt 2),
                                   (PStr ''ofstreams'',
                                    PList [PDict [(PStr ''base-file'', PStr ''./contest_out.txt''),
                                                  (PStr ''test-file'', PStr ''./out.txt'')]])])])])
           ''c'' = Some tc \<and>
         map_of tc (PStr ''return-code'') = Some (PInt 2) \<and>
         map_of tc (PStr ''ofstreams'') =
           Some (PList [PDict [(PStr ''base-file'', PStr ''./contest_out.txt''),
                               (PStr ''test-file'', PStr ''./out.txt'')]])) \<and>
   \<not> exists (final_fs (record_test ex_world [] ''contest_recipe.yaml'' ''c'' [''writer'']))
     ''./out.txt'' \<and>
   read_file (final_fs (record_test ex_world [] ''contest_recipe.yaml'' ''c'' [''writer'']))
     ''./contest_out.txt'' = Inr ''data''"
proof -
  let ?proc = "\<lparr>returncode = 2, stdout = [], stderr = [],
                fs_after = [(''out.txt'', File ''data'')]\<rparr>"
  let ?doc = "PDict [(PStr ''executable'', PStr ''writer''),
                   (PStr ''test-cases'',
                    PDict [(PStr ''c'',
                            PDict [(PStr ''return-code'', PInt 2),
                                   (PStr ''ofstreams'',
                                    PList [PDict [(PStr ''base-file'', PStr ''./contest_out.txt''),
                                                  (PStr ''test-file'', PStr ''./out.txt'')]])])])]"
  have p: "popen ex_world [''writer''] [] = Some ?proc"
    by (simp add: ex_world_def ex_child_def)
  have nf: "[''./out.txt''] = new_files_of ex_world [] (fs_after ?proc)"
    by (simp add: new_files_of_def ex_world_def path_defs)
  have wf: "wf_dir (fs_after ?proc)"
    by (simp add: wf_name_def sep_def)
  have it: "iterates_sets ex_world"
    by (simp add: iterates_sets_def ex_world_def)
  have b: "base_file_of ''./out.txt'' = ''./contest_out.txt''"
    by (simp add: path_defs)
  have h6: "\<forall>f \<in> set [''./out.txt'']. \<not> isdir (fs_after ?proc) (base_file_of f)"
    by (simp add: b) (simp add: isdir_def path_defs)
  have h7: "\<forall>f \<in> set [''./out.txt'']. base_file_of f \<notin> set [''./out.txt'']"
    by (simp add: b)
  have h8: "\<forall>f \<in> set [''./out.txt''].
              components ''contest_recipe.yaml'' \<noteq> components f \<and>
              components ''contest_recipe.yaml'' \<noteq> components (base_file_of f)"
    by (simp add: b) (simp add: components_def sep_def)
  have d: "dumped (record_test ex_world [] ''contest_recipe.yaml'' ''c'' [''writer'']) = Some ?doc"
    by (simp add: record_test_def open_recipe_def Let_def new_files_of_def ex_defs fs_defs
          path_defs run_def describe_run_def ofstream_def set_key_def)
  from new_files_become_ofstreams [OF p nf refl wf it h6 h7 h8 d]
  show ?thesis
    by (simp add: b read_file_def path_defs)
qed

text \<open>
  The claim as stated fails in two ways. The paths recorded for \<^verbatim>\<open>writer\<close> are
  \<^verbatim>\<open>./out.txt\<close> and \<^verbatim>\<open>./contest_out.txt\<close>, not \<^verbatim>\<open>out.txt\<close> and \<^verbatim>\<open>contest_out.txt\<close>.
  And \<^verbatim>\<open>twins\<close> writes \<^verbatim>\<open>a\<close> and \<^verbatim>\<open>contest_a\<close>: the first move puts \<^verbatim>\<open>a\<close> over
  \<^verbatim>\<open>contest_a\<close>, the second moves the result on, so that nothing stands at the
  base-file path recorded for \<^verbatim>\<open>a\<close> and one of the two files is lost.
\<close>

theorem new_files_become_ofstreams_counterexample:
  "dumped (record_test ex_world [] ''contest_recipe.yaml'' ''c'' [''writer'']) =
     Some (PDict [(PStr ''executable'', PStr ''writer''),
                  (PStr ''test-cases'',
                   PDict [(PStr ''c'',
                           PDict [(PStr ''return-code'', PInt 2),
                                  (PStr ''ofstreams'',
                                   PList [PDict [(PStr ''base-file'', PStr ''./contest_out.txt''),
                                                 (PStr ''test-file'', PStr ''./out.txt'')]])])])]) \<and>
   PDict [(PStr ''base-file'', PStr ''./contest_out.txt''), (PStr ''test-file'', PStr ''./out.txt'')]
     \<noteq> PDict [(PStr ''base-file'', PStr ''contest_out.txt''), (PStr ''test-file'', PStr ''out.txt'')] \<and>
   new_files_of ex_world []
     (AList.update ''contest_a'' (File ''2'') (AList.update ''a'' (File ''1'') [])) =
     [''./a'', ''./contest_a''] \<and>
   base_file_of ''./a'' = ''./contest_a'' \<and>
   final_fs (record_test ex_world [] ''contest_recipe.yaml'' ''c'' [''twins'']) =
     [(''contest_contest_a'', File ''1''), (''contest_recipe.yaml'', File ''dumped'')] \<and>
   \<not> exists (final_fs (record_test ex_world [] ''contest_recipe.yaml'' ''c'' [''twins'']))
     ''./contest_a''"
proof -
  have 1: "dumped (record_test ex_world [] ''contest_recipe.yaml'' ''c'' [''writer'']) =
     Some (PDict [(PStr ''executable'', PStr ''writer''),
                  (PStr ''test-cases'',
                   PDict [(PStr ''c'',
                           PDict [(PStr ''return-code'', PInt 2),
                                  (PStr ''ofstreams'',
                                   PList [PDict [(PStr ''base-file'', PStr ''./contest_out.txt''),
                                                 (PStr ''test-file'', PStr ''./out.txt'')]])])])])"
    by (simp add: record_test_def open_recipe_def Let_def new_files_of_def ex_defs fs_defs
          path_defs run_def describe_run_def ofstream_def set_key_def)
  have 2: "new_files_of ex_world []
     (AList.update ''contest_a'' (File ''2'') (AList.update ''a'' (File ''1'') [])) =
     [''./a'', ''./contest_a'']"
    by (simp add: new_files_of_def ex_world_def path_defs)
  have 3: "base_file_of ''./a'' = ''./contest_a''"
    by (simp add: path_defs)
  have 4: "final_fs (record_test ex_world [] ''contest_recipe.yaml'' ''c'' [''twins'']) =
     [(''contest_contest_a'', File ''1''), (''contest_recipe.yaml'', File ''dumped'')]"
    by (simp add: record_test_def open_recipe_def Let_def new_files_of_def ex_defs fs_defs
          path_defs run_def describe_run_def ofstream_def set_key_def AList.delete_eq)
  have 5: "\<not> exists [(''contest_contest_a'', File ''1''), (''contest_recipe.yaml'', File ''dumped'')]
             ''./contest_a''"
    by (simp add: exists_def components_def sep_def)
  from 1 2 3 4 5 show ?thesis
    by simp
qed


section \<open>Exceptions\<close>








section \<open>Base files that are already there\<close>

text \<open>
  C10. A new file whose base-file path holds a file already is moved onto it all the
  same: \<^verbatim>\<open>shutil.move\<close> succeeds, the base-file path then holds the content of the new
  file, whatever it held before, and nothing stands at the original path. So it is at
  the end of the loop of moves, which raises nothing, and at the end of a complete
  recording (unless the recipe itself is written there), when no base-file path is a
  directory and no new file stands at the base-file path of another.
\<close>

theorem base_file_overwritten:
  assumes "wf_dir fs"
      and "f \<in> set (get_files ''.'' fs)"
      and "read_file fs (base_file_of f) = Inr old"
      and "read_file fs f = Inr new"
  shows "(\<exists>fs'. shutil_move fs f (base_file_of f) = Inr fs' \<and>
            read_file fs' (base_file_of f) = Inr new \<and> \<not> exists fs' f) \<and>
         (popen w command fs0 = Some proc \<and> fs = fs_after proc \<and>
          nf = new_files_of w fs0 (fs_after proc) \<and> f \<in> set nf \<and> iterates_sets w \<and>
          (\<forall>g \<in> set nf. \<not> isdir (fs_after proc) (base_file_of g)) \<and>
          (\<forall>g \<in> set nf. base_file_of g \<notin> set nf) \<longrightarrow>
            (\<exists>ofs fs2. relocate (fs_after proc) nf [] = (Inr ofs, fs2) \<and>
               read_file fs2 (base_file_of f) = Inr new) \<and>
            (r = record_test w fs0 configuration test_name command \<and> dumped r = Some doc \<and>
             components configuration \<noteq> components (base_file_of f) \<longrightarrow>
               outcome r = Returned Success \<and>
               read_file (final_fs r) (base_file_of f) = Inr new))"
proof (intro conjI impI)
  from new_file_shape [OF assms(1,2)] obtain ms n where
    sh: "components f = ms @ [n]" "components (base_file_of f) = ms @ [''contest_'' @ n]"
    by blast
  have new: "stat_at fs (components f) = Regular new"
    using assms(4) by (simp add: read_file_stat)
  have old: "stat_at fs (components (base_file_of f)) \<noteq> Directory"
    using assms(3) by (simp add: read_file_stat)
  from shutil_move_stat [OF new old] sh obtain fs' where
    m: "shutil_move fs f (base_file_of f) = Inr fs'" and
    st: "\<And>ms. stat_at fs' ms =
           (if ms = components (base_file_of f) then Regular new
            else if ms = components f then Absent
            else stat_at fs ms)"
    by auto
  have "read_file fs' (base_file_of f) = Inr new"
    using st [of "components (base_file_of f)"] by (simp add: read_file_stat)
  moreover have "\<not> exists fs' f"
    using st [of "components f"] sh by (simp add: exists_stat)
  ultimately show "\<exists>fs'. shutil_move fs f (base_file_of f) = Inr fs' \<and>
            read_file fs' (base_file_of f) = Inr new \<and> \<not> exists fs' f"
    using m by blast
next
  assume a: "popen w command fs0 = Some proc \<and> fs = fs_after proc \<and>
          nf = new_files_of w fs0 (fs_after proc) \<and> f \<in> set nf \<and> iterates_sets w \<and>
          (\<forall>g \<in> set nf. \<not> isdir (fs_after proc) (base_file_of g)) \<and>
          (\<forall>g \<in> set nf. base_file_of g \<notin> set nf)"
  let ?fs1 = "fs_after proc"
  let ?nf = "new_files_of w fs0 ?fs1"
  from a have nf: "nf = ?nf" and fs: "fs = ?fs1" and it: "iterates_sets w" by auto
  from a have f: "f \<in> set ?nf"
    and h6: "\<forall>g \<in> set ?nf. \<not> isdir ?fs1 (base_file_of g)"
    and h7: "\<forall>g \<in> set ?nf. base_file_of g \<notin> set ?nf"
    by auto
  have wf: "wf_dir ?fs1" using assms(1) fs by simp
  have d: "distinct ?nf" and s: "set ?nf \<subseteq> set (get_files ''.'' ?fs1)"
    using new_files_of_set [OF it, of fs0 ?fs1] by auto
  have new: "stat_at ?fs1 (components f) = Regular new"
    using assms(4) fs by (simp add: read_file_stat)
  from relocate_new_files [OF wf d s h6 h7, of "[]"] obtain fs2 where
    rel: "relocate ?fs1 ?nf [] = (Inr (map ofstream ?nf), fs2)" and
    st: "\<forall>g \<in> set ?nf. stat_at fs2 (components g) = Absent \<and>
           stat_at fs2 (components (base_file_of g)) = stat_at ?fs1 (components g)"
    by auto
  from st f new have "read_file fs2 (base_file_of f) = Inr new"
    by (simp add: read_file_stat)
  with rel show "\<exists>ofs fs2. relocate ?fs1 nf [] = (Inr ofs, fs2) \<and>
            read_file fs2 (base_file_of f) = Inr new"
    unfolding nf by blast
  have fin: "outcome r = Returned Success \<and> read_file (final_fs r) (base_file_of f) = Inr new"
    if b: "r = record_test w fs0 configuration test_name command \<and> dumped r = Some doc \<and>
             components configuration \<noteq> components (base_file_of f)"
  proof -
    let ?r = "record_test w fs0 configuration test_name command"
    from b have r: "r = ?r" and dd: "dumped ?r = Some doc"
      and ne: "components (base_file_of f) \<noteq> components configuration"
      by auto
    from a have p: "popen w command fs0 = Some proc" by simp
    obtain tc0 :: "(pyval \<times> pyval) list" and fs2' where
      wr: "write_file fs2' configuration (yaml_dump w doc) = Inr (final_fs ?r)" and
      ok: "outcome ?r = Returned Success" and
      st': "\<forall>g \<in> set ?nf. stat_at fs2' (components g) = Absent \<and>
           stat_at fs2' (components (base_file_of g)) = stat_at ?fs1 (components g)"
      by (rule record_test_moves [OF p wf it h6 h7 dd])
    from st' f new have "stat_at fs2' (components (base_file_of f)) = Regular new"
      by simp
    with write_file_stat [OF wr, of "components (base_file_of f)"] ne
    have "read_file (final_fs ?r) (base_file_of f) = Inr new"
      by (simp add: read_file_stat)
    with ok show ?thesis unfolding r by simp
  qed
  show "outcome r = Returned Success"
    if "r = record_test w fs0 configuration test_name command \<and> dumped r = Some doc \<and>
             components configuration \<noteq> components (base_file_of f)"
    using fin [OF that] by simp
  show "read_file (final_fs r) (base_file_of f) = Inr new"
    if "r = record_test w fs0 configuration test_name command \<and> dumped r = Some doc \<and>
             components configuration \<noteq> components (base_file_of f)"
    using fin [OF that] by simp
qed

theorem base_file_overwritten_witness:
  "(\<exists>fs'. shutil_move [(''contest_out.txt'', File ''old''), (''out.txt'', File ''data'')]
             ''./out.txt'' ''./contest_out.txt'' = Inr fs' \<and>
      read_file fs' ''./contest_out.txt'' = Inr ''data'' \<and> \<not> exists fs' ''./out.txt'') \<and>
   (\<exists>ofs fs2.
      relocate [(''contest_out.txt'', File ''old''), (''out.txt'', File ''data'')]
        [''./out.txt''] [] = (Inr ofs, fs2) \<and>
      read_file fs2 ''./contest_out.txt'' = Inr ''data'') \<and>
   outcome (record_test ex_world ex_fs_stale ''contest_recipe.yaml'' ''c'' [''writer'']) =
     Returned Success \<and>
   read_file (final_fs (record_test ex_world ex_fs_stale ''contest_recipe.yaml'' ''c'' [''writer'']))
     ''./contest_out.txt'' = Inr ''data''"
proof -
  let ?cfg = "''contest_recipe.yaml''"
  let ?fs1 = "[(''contest_out.txt'', File ''old''), (''out.txt'', File ''data'')]"
  let ?proc = "\<lparr>returncode = 2, stdout = [], stderr = [], fs_after = ?fs1\<rparr>"
  have p: "popen ex_world [''writer''] ex_fs_stale = Some ?proc"
    by (simp add: ex_world_def ex_child_def ex_fs_stale_def)
  have nf: "new_files_of ex_world ex_fs_stale ?fs1 = [''./out.txt'']"
    by (simp add: new_files_of_def ex_world_def ex_fs_stale_def path_defs)
  have wf: "wf_dir ?fs1"
    by (simp add: wf_name_def sep_def)
  have g: "''./out.txt'' \<in> set (get_files ''.'' ?fs1)"
    by (simp add: path_defs)
  have it: "iterates_sets ex_world"
    by (simp add: iterates_sets_def ex_world_def)
  have b: "base_file_of ''./out.txt'' = ''./contest_out.txt''"
    by (simp add: path_defs)
  have h6: "\<forall>g \<in> set [''./out.txt'']. \<not> isdir (fs_after ?proc) (base_file_of g)"
    by (simp add: b) (simp add: isdir_def path_defs)
  have h7: "\<forall>g \<in> set [''./out.txt'']. base_file_of g \<notin> set [''./out.txt'']"
    by (simp add: b)
  have old: "read_file ?fs1 (base_file_of ''./out.txt'') = Inr ''old''"
    by (simp add: b) (simp add: read_file_def components_def sep_def)
  have new: "read_file ?fs1 ''./out.txt'' = Inr ''data''"
    by (simp add: read_file_def components_def sep_def)
  obtain doc where
    d: "dumped (record_test ex_world ex_fs_stale ?cfg ''c'' [''writer'']) = Some doc"
    by (simp add: record_test_def open_recipe_def Let_def new_files_of_def ex_defs
          ex_fs_stale_def fs_defs path_defs AList.delete_eq)
  have c: "components ?cfg \<noteq> components (base_file_of ''./out.txt'')"
    by (simp add: b) (simp add: components_def sep_def)
  from base_file_overwritten [OF wf g old new, of ex_world "[''writer'']" ex_fs_stale ?proc
      "[''./out.txt'']" "record_test ex_world ex_fs_stale ?cfg ''c'' [''writer'']" ?cfg "''c''" doc]
    p nf it h6 h7 d c
  show ?thesis
    by (simp add: b)
qed

end
